theory Spec2Isabelle
  imports Complex_Main "HOL-Library.Sublist" "HOL-Library.Multiset" "HOL-Library.AList"
begin

section \<open>The scraper of \<^verbatim>\<open>src/scraper/bunpro.py\<close>: data model\<close>

text \<open>
  Strings are byte strings (UTF-8); the source only cuts them at the ASCII characters
  \<^verbatim>\<open>/\<close> and \<^verbatim>\<open>.\<close>, which never occur inside a multi-byte sequence. A duration is
  the real number a Python float stands for; where the source computes with floats
  (in \<^verbatim>\<open>gen_random_sleeps\<close>) every operation is rounded to a double. A log
  message is kept up to the place where the source's f-string renders an exception or a
  number. The progress bar of \<^verbatim>\<open>tqdm\<close> only wraps the iteration and is left out.
\<close>

datatype level = DEBUG | INFO | WARNING | ERROR

text \<open>
  Everything the program does to the outside world is recorded, in order, in a trace:
  calls of \<^verbatim>\<open>logging\<close>, \<^verbatim>\<open>time.sleep\<close>, the session and request calls of
  \<^verbatim>\<open>requests\<close>, \<^verbatim>\<open>os.makedirs\<close> and a completed file write.
\<close>

datatype event =
    Log level string
  | Sleep real
  | SessionNew
  | SessionGet string
  | SessionClose
  | RequestsGet string
  | Makedirs
  | FileWrite string string

text \<open>
  \<^verbatim>\<open>requests.exceptions\<close>: \<open>HTTPError\<close> and \<open>Timeout\<close> are subclasses of
  \<^verbatim>\<open>RequestException\<close>; \<open>ConnectionError\<close> stands for every other subclass.
\<close>

datatype requests_exception = HTTPError | Timeout | ConnectionError

datatype exn =
    RequestException requests_exception
  | KeyboardInterrupt
  | FileNotFoundError
  | ValueError string

text \<open>
  A response object as \<^verbatim>\<open>process_response\<close> uses it: the attributes
  \<^verbatim>\<open>status_code\<close> and \<^verbatim>\<open>text\<close>, and what the method call
  \<^verbatim>\<open>raise_for_status()\<close> does (\<open>None\<close>: it returns; \<open>Some e\<close>: it raises \<open>e\<close>).
\<close>

record response =
  status_code :: int
  body_text :: string
  raise_for_status :: "requests_exception option"

text \<open>
  A response built by the \<^verbatim>\<open>requests\<close> library itself: its \<^verbatim>\<open>raise_for_status\<close>
  raises \<open>HTTPError\<close> exactly for the client and server error codes 400 to 599.
\<close>

definition requests_response :: "response \<Rightarrow> bool" where
  "requests_response r =
     (raise_for_status r =
        (if 400 \<le> status_code r \<and> status_code r < 600 then Some HTTPError else None))"

datatype fetch_result = Response response | Raises exn

datatype soup = BeautifulSoup string

datatype session = Session

text \<open>\<^verbatim>\<open>ResponseResult = namedtuple("ResponseResult", ["action", "site", "sleep_time", "scraped"])\<close>\<close>

record ResponseResult =
  action :: string
  site :: string
  sleep_time :: real
  scraped :: bool

text \<open>
  The environment: the library functions the source calls without defining them
  (\<^verbatim>\<open>urllib.parse.unquote\<close>, \<^verbatim>\<open>quote(_, safe=":/?=&")\<close>, \<^verbatim>\<open>soup.prettify()\<close>)
  and what the outside world answers at a given time, the time being the number of
  events so far: the formatted timestamp \<^verbatim>\<open>strftime("%Y%m%d%H%M%S")\<close>, the outcome of
  a network call for a URL, whether opening a file for writing fails with an
  \<^verbatim>\<open>IOError\<close>, and the values \<^verbatim>\<open>random.random()\<close> returns.
\<close>

record env =
  unquote :: "string \<Rightarrow> string"
  quote :: "string \<Rightarrow> string"
  prettify :: "soup \<Rightarrow> string"
  clock :: "nat \<Rightarrow> string"
  network :: "nat \<Rightarrow> string \<Rightarrow> fetch_result"
  open_fails :: "nat \<Rightarrow> string \<Rightarrow> bool"
  draw :: "nat \<Rightarrow> real"

text \<open>
  The mutable world: the trace, the directory \<^verbatim>\<open>grammar_pages\<close> (whether it exists,
  and its files as name and content, in listing order), and how many random numbers
  have been drawn. The source names the directory relative to the working directory
  in \<^verbatim>\<open>scrape_sites\<close> and relative to the module's file in \<^verbatim>\<open>save_source_code\<close>; the model
  takes the program to run where both name the same directory.
\<close>

record world =
  trace :: "event list"
  dir_exists :: bool
  files :: "(string \<times> string) list"
  rng_pos :: nat

definition emit :: "event \<Rightarrow> world \<Rightarrow> world" where
  "emit e w = w\<lparr>trace := trace w @ [e]\<rparr>"

definition logging :: "level \<Rightarrow> string \<Rightarrow> world \<Rightarrow> world" where
  "logging lvl msg w = emit (Log lvl msg) w"

definition now :: "world \<Rightarrow> nat" where
  "now w = length (trace w)"

definition time_sleep :: "real \<Rightarrow> world \<Rightarrow> world" where
  "time_sleep d w = emit (Sleep d) w"

text \<open>The names in \<^verbatim>\<open>grammar_pages\<close>, as \<^verbatim>\<open>os.listdir\<close> returns them when the directory exists.\<close>

definition listdir :: "world \<Rightarrow> string list" where
  "listdir w = map fst (files w)"

text \<open>\<^verbatim>\<open>os.path.exists\<close> of a file name inside \<^verbatim>\<open>grammar_pages\<close>.\<close>

definition path_exists :: "string \<Rightarrow> world \<Rightarrow> bool" where
  "path_exists f w = (dir_exists w \<and> f \<in> set (listdir w))"

text \<open>\<^verbatim>\<open>os.makedirs\<close> of the missing directory: it exists afterwards, and is empty.\<close>

definition makedirs :: "world \<Rightarrow> world" where
  "makedirs w = emit Makedirs (w\<lparr>dir_exists := True, files := []\<rparr>)"

text \<open>\<^verbatim>\<open>with open(filename, "w") as file: file.write(content)\<close>, once the open succeeded.\<close>

definition write_file :: "string \<Rightarrow> string \<Rightarrow> world \<Rightarrow> world" where
  "write_file f content w =
     emit (FileWrite f content) (w\<lparr>files := AList.update f content (files w)\<rparr>)"

text \<open>Python's \<^verbatim>\<open>s.split(sep)\<close> for a one-character separator: never the empty list.\<close>

fun str_split :: "char \<Rightarrow> string \<Rightarrow> string list" where
  "str_split sep [] = [[]]"
| "str_split sep (c # cs) =
     (if c = sep then [] # str_split sep cs
      else (case str_split sep cs of
              [] \<Rightarrow> [[c]]
            | p # ps \<Rightarrow> (c # p) # ps))"

section \<open>\<^verbatim>\<open>gen_random_sleeps\<close>\<close>

text \<open>
  Python floats are IEEE 754 doubles: 53 significant bits, every operation rounded to
  the nearest double, ties to the even significand. \<open>rhe\<close> rounds a real to the nearest
  integer, ties to even; \<open>double\<close> scales a real by the power of two that brings it
  into the range of 53-bit integers, rounds, and scales back. The exponent range is
  taken as unbounded (no overflow, no subnormal numbers), which durations in seconds
  never come near.
\<close>

definition rhe :: "real \<Rightarrow> int" where
  "rhe q =
     (if q - of_int \<lfloor>q\<rfloor> < 1 / 2 then \<lfloor>q\<rfloor>
      else if 1 / 2 < q - of_int \<lfloor>q\<rfloor> then \<lfloor>q\<rfloor> + 1
      else if even \<lfloor>q\<rfloor> then \<lfloor>q\<rfloor> else \<lfloor>q\<rfloor> + 1)"

definition double :: "real \<Rightarrow> real" where
  "double x =
     (if x = 0 then 0
      else of_int (rhe (x * 2 powr of_int (52 - \<lfloor>log 2 \<bar>x\<bar>\<rfloor>)))
           * 2 powr of_int (\<lfloor>log 2 \<bar>x\<bar>\<rfloor> - 52))"

definition random_random :: "env \<Rightarrow> world \<Rightarrow> real \<times> world" where
  "random_random ev w = (draw ev (rng_pos w), w\<lparr>rng_pos := Suc (rng_pos w)\<rparr>)"

text \<open>
  \<^verbatim>\<open>random.uniform(a, b)\<close> is \<^verbatim>\<open>a + (b - a) * random()\<close>, three float operations.
\<close>

definition uniform :: "env \<Rightarrow> real \<Rightarrow> real \<Rightarrow> world \<Rightarrow> real \<times> world" where
  "uniform ev a b w =
     (case random_random ev w of
        (u, w') \<Rightarrow> (double (a + double (double (b - a) * u)), w'))"

text \<open>\<^verbatim>\<open>randbelow(n)\<close>: an index below \<open>n\<close>, here the next random number scaled.\<close>

definition randbelow :: "env \<Rightarrow> nat \<Rightarrow> world \<Rightarrow> nat \<times> world" where
  "randbelow ev n w = (case random_random ev w of (u, w') \<Rightarrow> (nat \<lfloor>u * real n\<rfloor>, w'))"

text \<open>\<^verbatim>\<open>range(n)\<close> for a Python integer: empty when \<open>n \<le> 0\<close>.\<close>

definition py_range :: "int \<Rightarrow> int list" where
  "py_range n = map int [0..<nat n]"

text \<open>
  The loop \<^verbatim>\<open>for i in range(n_requests)\<close> of \<^verbatim>\<open>gen_random_sleeps\<close>, over the indices
  still to visit, with its \<^verbatim>\<open>break\<close>. The integer \<^verbatim>\<open>n_requests - i\<close> is converted to
  a float for the division; the division, the addition to the slot and the subtraction
  from the remaining time are float operations.
\<close>

fun fill_loop ::
  "env \<Rightarrow> int \<Rightarrow> int list \<Rightarrow> real \<Rightarrow> real list \<Rightarrow> world \<Rightarrow> real list \<times> world" where
  "fill_loop ev n_requests [] remaining_time sleep_intervals w = (sleep_intervals, w)"
| "fill_loop ev n_requests (i # rest) remaining_time sleep_intervals w =
     (if remaining_time \<le> 0 then (sleep_intervals, w)
      else
        (let max_additional_sleep =
               double (remaining_time / double (real_of_int (n_requests - i))) in
         case uniform ev 0 max_additional_sleep w of
           (additional_sleep, w') \<Rightarrow>
             fill_loop ev n_requests rest (double (remaining_time - additional_sleep))
               (sleep_intervals[nat i := double (sleep_intervals ! nat i + additional_sleep)])
               w'))"

text \<open>
  \<^verbatim>\<open>random.shuffle(x)\<close>: \<^verbatim>\<open>for i in reversed(range(1, len(x))): j = randbelow(i + 1);
  x[i], x[j] = x[j], x[i]\<close>.
\<close>

fun shuffle_loop :: "env \<Rightarrow> nat list \<Rightarrow> real list \<Rightarrow> world \<Rightarrow> real list \<times> world" where
  "shuffle_loop ev [] x w = (x, w)"
| "shuffle_loop ev (i # rest) x w =
     (case randbelow ev (i + 1) w of
        (j, w') \<Rightarrow> shuffle_loop ev rest (x[i := x ! j, j := x ! i]) w')"

definition shuffle :: "env \<Rightarrow> real list \<Rightarrow> world \<Rightarrow> real list \<times> world" where
  "shuffle ev x w = shuffle_loop ev (rev [1..<length x]) x w"

definition budget_msg :: string where
  "budget_msg = ''Minimum sleep times number of requests exceed the maximum total time.''"

definition size_msg :: string where
  "size_msg = ''Error generating sleep intervals''"

text \<open>
  \<^verbatim>\<open>gen_random_sleeps\<close> on float arguments: the product \<^verbatim>\<open>n_requests * min_sleep\<close> of
  the budget test and of the remaining time is the float product of the converted
  count and \<^verbatim>\<open>min_sleep\<close>, and the remaining time is a float difference.
\<close>

definition gen_random_sleeps ::
  "env \<Rightarrow> real \<Rightarrow> real \<Rightarrow> int \<Rightarrow> world \<Rightarrow> (exn + real list) \<times> world" where
  "gen_random_sleeps ev min_sleep max_total_time n_requests w =
     (if double (double (real_of_int n_requests) * min_sleep) > max_total_time
      then (Inl (ValueError budget_msg), logging ERROR budget_msg w)
      else
        (let remaining_time =
               double (max_total_time - double (double (real_of_int n_requests) * min_sleep));
             sleep_intervals = replicate (nat n_requests) min_sleep
         in case fill_loop ev n_requests (py_range n_requests) remaining_time sleep_intervals w of
              (sleep_intervals', w') \<Rightarrow>
                if int (length sleep_intervals') \<noteq> n_requests
                then (Inl (ValueError size_msg), logging ERROR size_msg w')
                else (case shuffle ev sleep_intervals' w' of
                        (shuffled, w'') \<Rightarrow> (Inr shuffled, w''))))"

section \<open>\<^verbatim>\<open>save_source_code\<close> and \<^verbatim>\<open>process_response\<close>\<close>

text \<open>The trailing path segment of a URL, decoded: \<^verbatim>\<open>unquote(site.split("/")[-1])\<close>.\<close>

definition unquoted_name :: "env \<Rightarrow> string \<Rightarrow> string" where
  "unquoted_name ev st = unquote ev (last (str_split CHR ''/'' st))"

text \<open>
  The first step of \<^verbatim>\<open>save_source_code\<close>: create \<^verbatim>\<open>grammar_pages\<close> when it is missing.
\<close>

definition ensure_dir :: "world \<Rightarrow> world" where
  "ensure_dir w =
     (if \<not> dir_exists w
      then makedirs (logging WARNING ''Directory 'grammar_pages' does not exist. Creating it.'' w)
      else w)"

text \<open>
  The file name \<^verbatim>\<open>save_source_code\<close> opens: the decoded segment with \<^verbatim>\<open>.html\<close>, and
  when a file of that name exists, that name followed by \<^verbatim>\<open>_<timestamp>.html\<close>.
\<close>

definition save_path :: "env \<Rightarrow> string \<Rightarrow> world \<Rightarrow> string" where
  "save_path ev st w =
     (let filename = unquoted_name ev st @ ''.html''
      in if path_exists filename w
         then filename @ ''_'' @ clock ev (now w) @ ''.html''
         else filename)"

definition save_source_code :: "env \<Rightarrow> soup \<Rightarrow> string \<Rightarrow> world \<Rightarrow> world" where
  "save_source_code ev sp st w =
     (let w1 = ensure_dir w;
          filename = save_path ev st w1
      in if open_fails ev (now w1) filename
         then logging ERROR (''Error saving source code for '' @ st) w1
         else write_file filename (prettify ev sp) w1)"

definition error_result :: "string \<Rightarrow> real \<Rightarrow> ResponseResult" where
  "error_result st slp = \<lparr>action = ''error'', site = st, sleep_time = slp, scraped = False\<rparr>"

definition process_response ::
  "env \<Rightarrow> response \<Rightarrow> string \<Rightarrow> real \<Rightarrow> world \<Rightarrow> ResponseResult \<times> world" where
  "process_response ev r st slp w =
     (case raise_for_status r of
        Some e \<Rightarrow>
          (if e = HTTPError
           then (error_result st slp,
                 logging ERROR (''HTTP error occurred while scraping '' @ st) w)
           else (error_result st slp, logging ERROR (''Error scraping '' @ st) w))
      | None \<Rightarrow>
          (if status_code r = 429
           then (\<lparr>action = ''break'', site = st, sleep_time = slp, scraped = False\<rparr>,
                 logging ERROR (''Rate limit exceeded for '' @ st @ ''. Exiting.'') w)
           else
             (let w1 = time_sleep slp w;
                  sp = BeautifulSoup (body_text r);
                  w2 = save_source_code ev sp st w1
              in (\<lparr>action = ''scrape'', site = st, sleep_time = slp, scraped = True\<rparr>, w2))))"

section \<open>\<^verbatim>\<open>scrape_sites\<close>\<close>

definition session_get :: "env \<Rightarrow> string \<Rightarrow> world \<Rightarrow> fetch_result \<times> world" where
  "session_get ev url w = (network ev (now w) url, emit (SessionGet url) w)"

definition requests_get :: "env \<Rightarrow> string \<Rightarrow> world \<Rightarrow> fetch_result \<times> world" where
  "requests_get ev url w = (network ev (now w) url, emit (RequestsGet url) w)"

text \<open>
  The connection strategy and the request (the \<^verbatim>\<open>if sleep_time < min_session_interval\<close>
  of the loop body): the session variable afterwards, what the request gave, the world.
\<close>

definition issue_request ::
  "env \<Rightarrow> real \<Rightarrow> real \<Rightarrow> string \<Rightarrow> session option \<Rightarrow> world
     \<Rightarrow> session option \<times> fetch_result \<times> world" where
  "issue_request ev slp min_session_interval encoded_site sess w =
     (if slp < min_session_interval
      then (case (if sess = None then (Some Session, emit SessionNew w) else (sess, w)) of
              (sess', w') \<Rightarrow>
                (case session_get ev encoded_site w' of (res, w'') \<Rightarrow> (sess', res, w'')))
      else (case (if sess \<noteq> None then (None, emit SessionClose w) else (sess, w)) of
              (sess', w') \<Rightarrow>
                (case requests_get ev encoded_site w' of (res, w'') \<Rightarrow> (sess', res, w''))))"

text \<open>The \<^verbatim>\<open>finally\<close> clause of the loop body.\<close>

definition finally_cleanup ::
  "real \<Rightarrow> real \<Rightarrow> session option \<Rightarrow> world \<Rightarrow> session option \<times> world" where
  "finally_cleanup slp min_session_interval sess w =
     (if sess \<noteq> None \<and> slp \<ge> min_session_interval
      then (None, logging DEBUG ''Session closed'' (emit SessionClose w))
      else (sess, w))"

text \<open>
  How one pass through the loop body ends: the loop goes on, the loop is left by
  \<^verbatim>\<open>break\<close>, or an exception leaves the body.
\<close>

datatype control = Next | Break | Propagate exn

text \<open>
  One pass through the body of the \<^verbatim>\<open>for\<close> loop, for one pair of \<^verbatim>\<open>zip(sites, times)\<close>:
  what it yields (if anything), how it ends, the session variable and the world.
\<close>

definition scrape_step ::
  "env \<Rightarrow> string list \<Rightarrow> real \<Rightarrow> string \<Rightarrow> real \<Rightarrow> session option \<Rightarrow> world
     \<Rightarrow> ResponseResult option \<times> control \<times> session option \<times> world" where
  "scrape_step ev skip_sites min_session_interval st slp sess w =
     (if unquoted_name ev st \<in> set skip_sites
      then (None, Next, sess,
            logging INFO (''Skipping '' @ st @ '' as it has already been scraped.'') w)
      else
        (let encoded_site = quote ev st in
         case issue_request ev slp min_session_interval encoded_site sess w of
           (sess1, res, w1) \<Rightarrow>
             (case res of
                Response r \<Rightarrow>
                  (case process_response ev r st slp w1 of
                     (result, w2) \<Rightarrow>
                       (let w3 = logging DEBUG (''Processed response from '' @ st) w2 in
                        case finally_cleanup slp min_session_interval sess1 w3 of
                          (sess4, w4) \<Rightarrow>
                            if action result = ''break''
                            then (None, Break, sess4, w4)
                            else (Some result, Next, sess4, w4)))
              | Raises e \<Rightarrow>
                  (case e of
                     RequestException re \<Rightarrow>
                       (let w2 = (if re = Timeout
                                  then logging ERROR
                                         (''Timeout occurred while trying to access '' @ st) w1
                                  else logging ERROR (''Error scraping '' @ st) w1)
                        in case finally_cleanup slp min_session_interval sess1 w2 of
                             (sess4, w4) \<Rightarrow> (Some (error_result st slp), Next, sess4, w4))
                   | _ \<Rightarrow>
                       (case finally_cleanup slp min_session_interval sess1 w1 of
                          (sess4, w4) \<Rightarrow> (None, Propagate e, sess4, w4))))))"

fun the_list :: "'a option \<Rightarrow> 'a list" where
  "the_list None = []"
| "the_list (Some x) = [x]"

text \<open>
  The \<^verbatim>\<open>for\<close> loop, driven to its end by the consumer of the generator: the results
  yielded in order, how the loop was left (\<open>Next\<close>: the pairs ran out), the session
  variable and the world.
\<close>

fun scrape_loop ::
  "env \<Rightarrow> string list \<Rightarrow> real \<Rightarrow> (string \<times> real) list \<Rightarrow> session option \<Rightarrow> world
     \<Rightarrow> ResponseResult list \<times> control \<times> session option \<times> world" where
  "scrape_loop ev skip_sites msi [] sess w = ([], Next, sess, w)"
| "scrape_loop ev skip_sites msi ((st, slp) # rest) sess w =
     (case scrape_step ev skip_sites msi st slp sess w of
        (y, c, sess', w') \<Rightarrow>
          if c = Next
          then (case scrape_loop ev skip_sites msi rest sess' w' of
                  (ys, c', sess'', w'') \<Rightarrow> (the_list y @ ys, c', sess'', w''))
          else (the_list y, c, sess', w'))"

text \<open>\<^verbatim>\<open>skip_sites = [site.split(".")[0] for site in os.listdir("../grammar_pages")]\<close>\<close>

definition skip_sites_of :: "world \<Rightarrow> string list" where
  "skip_sites_of w = map (\<lambda>f. hd (str_split CHR ''.'' f)) (listdir w)"

datatype ending = Returned | Raised exn

text \<open>
  The generator \<^verbatim>\<open>scrape_sites\<close>, run to its end: the results it yields, whether it
  returns or raises, and the world it leaves.
\<close>

definition scrape_sites ::
  "env \<Rightarrow> string list \<Rightarrow> real list \<Rightarrow> real \<Rightarrow> world
     \<Rightarrow> ResponseResult list \<times> ending \<times> world" where
  "scrape_sites ev sites sleep_times min_session_interval w =
     (if \<not> dir_exists w then ([], Raised FileNotFoundError, w)
      else
        (let skip_sites = skip_sites_of w in
         case scrape_loop ev skip_sites min_session_interval (zip sites sleep_times) None w of
           (ys, c, sess, w1) \<Rightarrow>
             (case c of
                Propagate e \<Rightarrow>
                  (if e = KeyboardInterrupt
                   then (let w2 = logging INFO ''Scraping interrupted by user.'' w1;
                             w3 = (if sess \<noteq> None
                                   then logging INFO ''Session closed after interruption.''
                                          (emit SessionClose w2)
                                   else w2)
                         in (ys, Raised e, w3))
                   else (ys, Raised e, w1))
              | _ \<Rightarrow> (ys, Returned, if sess \<noteq> None then emit SessionClose w1 else w1))))"

section \<open>Observations on a trace\<close>

text \<open>The URLs of the network calls of a trace, in order.\<close>

fun url_of :: "event \<Rightarrow> string list" where
  "url_of (SessionGet u) = [u]"
| "url_of (RequestsGet u) = [u]"
| "url_of _ = []"

definition fetched :: "event list \<Rightarrow> string list" where
  "fetched es = concat (map url_of es)"

text \<open>The durations of the blocking waits of a trace, in order.\<close>

fun sleep_of :: "event \<Rightarrow> real list" where
  "sleep_of (Sleep d) = [d]"
| "sleep_of _ = []"

definition sleeps :: "event list \<Rightarrow> real list" where
  "sleeps es = concat (map sleep_of es)"

text \<open>The number of sessions opened and not yet closed at the end of a trace.\<close>

fun live_delta :: "event \<Rightarrow> int" where
  "live_delta SessionNew = 1"
| "live_delta SessionClose = - 1"
| "live_delta _ = 0"

definition live :: "event list \<Rightarrow> int" where
  "live es = sum_list (map live_delta es)"

text \<open>Events that are neither a network call nor a session event.\<close>

definition quiet :: "event list \<Rightarrow> bool" where
  "quiet es = list_all (\<lambda>e. url_of e = [] \<and> live_delta e = 0) es"

text \<open>The number of live sessions the session variable stands for.\<close>

definition live_of :: "session option \<Rightarrow> int" where
  "live_of sess = (if sess = None then 0 else 1)"

text \<open>
  Starting with \<open>c\<close> live sessions, the count stays zero or one after every event of
  the list.
\<close>

fun within_one :: "int \<Rightarrow> event list \<Rightarrow> bool" where
  "within_one c [] = (0 \<le> c \<and> c \<le> 1)"
| "within_one c (e # es) = (0 \<le> c \<and> c \<le> 1 \<and> within_one (c + live_delta e) es)"

text \<open>
  What the connection strategy of one request adds to the trace before the request
  itself, the request's event, and what the loop body makes of the request's outcome.
\<close>

definition conn_events :: "real \<Rightarrow> real \<Rightarrow> session option \<Rightarrow> event list" where
  "conn_events slp msi sess =
     (if slp < msi then (if sess = None then [SessionNew] else [])
      else (if sess \<noteq> None then [SessionClose] else []))"

definition get_event :: "real \<Rightarrow> real \<Rightarrow> string \<Rightarrow> event" where
  "get_event slp msi url = (if slp < msi then SessionGet url else RequestsGet url)"

definition scrape_result :: "string \<Rightarrow> real \<Rightarrow> ResponseResult" where
  "scrape_result st slp = \<lparr>action = ''scrape'', site = st, sleep_time = slp, scraped = True\<rparr>"

fun step_outcome :: "fetch_result \<Rightarrow> string \<Rightarrow> real \<Rightarrow> ResponseResult option \<times> control" where
  "step_outcome (Response r) st slp =
     (case raise_for_status r of
        Some e \<Rightarrow> (Some (error_result st slp), Next)
      | None \<Rightarrow> if status_code r = 429 then (None, Break)
                else (Some (scrape_result st slp), Next))"
| "step_outcome (Raises (RequestException e)) st slp = (Some (error_result st slp), Next)"
| "step_outcome (Raises e) st slp = (None, Propagate e)"

text \<open>A request outcome after which the loop goes on to the next target.\<close>

fun goes_on :: "fetch_result \<Rightarrow> bool" where
  "goes_on (Response r) = (\<not> (raise_for_status r = None \<and> status_code r = 429))"
| "goes_on (Raises (RequestException e)) = True"
| "goes_on (Raises e) = False"

text \<open>The targets of a batch that the resume filter lets through, for a given skip list.\<close>

definition to_fetch :: "env \<Rightarrow> string list \<Rightarrow> (string \<times> real) list \<Rightarrow> string list" where
  "to_fetch ev skip items = filter (\<lambda>s. unquoted_name ev s \<notin> set skip) (map fst items)"

section \<open>Concrete scenarios\<close>

definition ok_response :: response where
  "ok_response = \<lparr>status_code = 200, body_text = ''<p>'', raise_for_status = None\<rparr>"

text \<open>
  A quiet environment: identity coding of URLs, every request answered 200, every file
  writable, every random number one half.
\<close>

definition quiet_env :: env where
  "quiet_env =
     \<lparr>unquote = (\<lambda>s. s), quote = (\<lambda>s. s),
      prettify = (\<lambda>sp. case sp of BeautifulSoup t \<Rightarrow> t),
      clock = (\<lambda>t. ''20240101120000''),
      network = (\<lambda>t url. Response ok_response),
      open_fails = (\<lambda>t f. False),
      draw = (\<lambda>k. 1 / 2)\<rparr>"

definition empty_store :: world where
  "empty_store = \<lparr>trace = [], dir_exists = True, files = [], rng_pos = 0\<rparr>"

text \<open>
  A 429 answer as the \<^verbatim>\<open>requests\<close> library builds it, and a simulated one whose
  \<^verbatim>\<open>raise_for_status()\<close> returns (a test double).
\<close>

definition rate_limited :: response where
  "rate_limited = \<lparr>status_code = 429, body_text = [], raise_for_status = Some HTTPError\<rparr>"

definition simulated_429 :: response where
  "simulated_429 = \<lparr>status_code = 429, body_text = [], raise_for_status = None\<rparr>"

definition target :: "string \<Rightarrow> string" where
  "target n = ''https://bunpro.jp/grammar_points/'' @ n"

definition five_sites :: "string list" where
  "five_sites = [target ''1'', target ''2'', target ''3'', target ''4'', target ''5'']"

text \<open>The quiet environment, except that one URL is answered differently.\<close>

definition env_where :: "string \<Rightarrow> fetch_result \<Rightarrow> env" where
  "env_where url res =
     quiet_env\<lparr>network := (\<lambda>t u. if u = url then res else Response ok_response)\<rparr>"

text \<open>A 404 answer of the \<^verbatim>\<open>requests\<close> library, and a store that holds one page already.\<close>

definition not_found :: response where
  "not_found = \<lparr>status_code = 404, body_text = [], raise_for_status = Some HTTPError\<rparr>"

definition one_page_store :: world where
  "one_page_store =
     \<lparr>trace = [], dir_exists = True, files = [(''1.html'', ''<old>'')], rng_pos = 0\<rparr>"

text \<open>The quiet environment on a disk that refuses every write.\<close>

definition read_only_env :: env where
  "read_only_env = quiet_env\<lparr>open_fails := (\<lambda>t f. True)\<rparr>"

text \<open>A store that holds the page of a target whose name contains a dot.\<close>

definition dotted_store :: world where
  "dotted_store =
     \<lparr>trace = [], dir_exists = True, files = [(''a.b.html'', ''<old>'')], rng_pos = 0\<rparr>"

text \<open>
  The quiet environment, except that the third random number is the largest float
  below one.
\<close>

definition late_draw_env :: env where
  "late_draw_env = quiet_env\<lparr>draw := (\<lambda>k. if k = 2 then 1 - 1 / 2 ^ 53 else 1 / 2)\<rparr>"

text \<open>The double nearest to one tenth, Python's \<^verbatim>\<open>0.1\<close>.\<close>

definition tenth :: real where
  "tenth = 3602879701896397 / 36028797018963968"

text \<open>
  A store that holds a page and, under the name that page gets with the time stamp of
  the quiet environment, another one.
\<close>

definition two_page_store :: world where
  "two_page_store =
     \<lparr>trace = [], dir_exists = True,
      files = [(''1.html'', ''<old>''), (''1.html_20240101120000.html'', ''<older>'')],
      rng_pos = 0\<rparr>"

section \<open>The resume set in the words of the specification\<close>

text \<open>
  The specification describes the resume set as the listing of the store with the file
  extensions stripped. Stripping the extension of a file name is taken to mean what it
  usually does: the name without its last dot and what follows it, and the whole name
  when it has no dot. This definition follows the specification, not the source; the
  source is \<open>skip_sites_of\<close>.
\<close>

definition spec_strip_extension :: "string \<Rightarrow> string" where
  "spec_strip_extension f =
     (if CHR ''.'' \<in> set f then rev (tl (dropWhile (\<lambda>c. c \<noteq> CHR ''.'') (rev f))) else f)"

section \<open>Basic facts about traces and the loop body\<close>

lemma fetched_append [simp]: "fetched (xs @ ys) = fetched xs @ fetched ys"
  by (simp add: fetched_def)
lemma sleeps_append [simp]: "sleeps (xs @ ys) = sleeps xs @ sleeps ys"
  by (simp add: sleeps_def)
lemma live_append [simp]: "live (xs @ ys) = live xs + live ys"
  by (simp add: live_def)
lemma fetched_single [simp]: "fetched [e] = url_of e" by (simp add: fetched_def)
lemma sleeps_single [simp]: "sleeps [e] = sleep_of e" by (simp add: sleeps_def)
lemma live_single [simp]: "live [e] = live_delta e" by (simp add: live_def)
lemma fetched_Nil [simp]: "fetched [] = []" by (simp add: fetched_def)
lemma sleeps_Nil [simp]: "sleeps [] = []" by (simp add: sleeps_def)
lemma live_Nil [simp]: "live [] = 0" by (simp add: live_def)
lemma fetched_Cons [simp]: "fetched (e # es) = url_of e @ fetched es" by (simp add: fetched_def)
lemma sleeps_Cons [simp]: "sleeps (e # es) = sleep_of e @ sleeps es" by (simp add: sleeps_def)
lemma live_Cons [simp]: "live (e # es) = live_delta e + live es" by (simp add: live_def)

lemma emit_simps [simp]:
  "trace (emit e w) = trace w @ [e]"
  "dir_exists (emit e w) = dir_exists w"
  "files (emit e w) = files w"
  "rng_pos (emit e w) = rng_pos w"
  by (simp_all add: emit_def)

lemma logging_simps [simp]:
  "trace (logging l m w) = trace w @ [Log l m]"
  "dir_exists (logging l m w) = dir_exists w"
  "files (logging l m w) = files w"
  "rng_pos (logging l m w) = rng_pos w"
  by (simp_all add: logging_def)

lemma time_sleep_simps [simp]:
  "trace (time_sleep d w) = trace w @ [Sleep d]"
  "dir_exists (time_sleep d w) = dir_exists w"
  "files (time_sleep d w) = files w"
  by (simp_all add: time_sleep_def)

lemma ensure_dir_exists [simp]: "dir_exists (ensure_dir w)"
  by (simp add: ensure_dir_def makedirs_def)

lemma ensure_dir_id [simp]: "dir_exists w \<Longrightarrow> ensure_dir w = w"
  by (simp add: ensure_dir_def)

lemma process_response_success:
  assumes "raise_for_status r = None" "status_code r \<noteq> 429"
  shows "process_response ev r st slp w
         = (\<lparr>action = ''scrape'', site = st, sleep_time = slp, scraped = True\<rparr>,
            save_source_code ev (BeautifulSoup (body_text r)) st (time_sleep slp w))"
  using assms by (simp add: process_response_def Let_def)

lemma process_response_raises:
  assumes "raise_for_status r = Some e"
  shows "fst (process_response ev r st slp w) = error_result st slp"
    and "\<exists>m. snd (process_response ev r st slp w) = logging ERROR m w"
  using assms by (auto simp add: process_response_def)

lemma process_response_break:
  assumes "raise_for_status r = None" "status_code r = 429"
  shows "process_response ev r st slp w
         = (\<lparr>action = ''break'', site = st, sleep_time = slp, scraped = False\<rparr>,
            logging ERROR (''Rate limit exceeded for '' @ st @ ''. Exiting.'') w)"
  using assms by (simp add: process_response_def)


lemma quiet_simps [simp]:
  "quiet []"
  "quiet (xs @ ys) = (quiet xs \<and> quiet ys)"
  "quiet (e # es) = (url_of e = [] \<and> live_delta e = 0 \<and> quiet es)"
  by (auto simp: quiet_def)

lemma quiet_fetched: "quiet es \<Longrightarrow> fetched es = []"
  by (induction es) auto

lemma quiet_live: "quiet es \<Longrightarrow> live es = 0"
  by (induction es) auto

lemma quiet_within_one: "quiet es \<Longrightarrow> within_one c es = (0 \<le> c \<and> c \<le> 1)"
  by (induction es arbitrary: c) auto

lemma quiet_no_session: "quiet es \<Longrightarrow> SessionNew \<notin> set es \<and> SessionClose \<notin> set es"
  by (induction es) auto

lemma within_one_start: "within_one c es \<Longrightarrow> 0 \<le> c \<and> c \<le> 1"
  by (cases es) auto

lemma within_one_append:
  "within_one c (xs @ ys) = (within_one c xs \<and> within_one (c + live xs) ys)"
  by (induction xs arbitrary: c) (auto simp: add.assoc dest: within_one_start)

lemma session_unique: "(s::session) = Session"
  by (cases s)

lemma session_var_cases: "sess = None \<or> sess = Some Session"
  by (cases sess) (auto simp: session_unique)

lemma save_source_code_quiet:
  "\<exists>evs. trace (save_source_code ev sp st w) = trace w @ evs \<and> quiet evs \<and> sleeps evs = []"
  by (cases "dir_exists w")
     (auto simp: save_source_code_def Let_def ensure_dir_def makedirs_def write_file_def)

lemma process_response_quiet:
  "\<exists>evs. trace (snd (process_response ev r st slp w)) = trace w @ evs \<and> quiet evs"
proof (cases "raise_for_status r = None \<and> status_code r \<noteq> 429")
  case True
  obtain evs where "trace (save_source_code ev (BeautifulSoup (body_text r)) st (time_sleep slp w))
      = trace (time_sleep slp w) @ evs" "quiet evs"
    using save_source_code_quiet by blast
  then have "trace (snd (process_response ev r st slp w)) = trace w @ (Sleep slp # evs)"
    using True by (simp add: process_response_success)
  then show ?thesis using \<open>quiet evs\<close> by (intro exI[of _ "Sleep slp # evs"]) simp
next
  case False
  then show ?thesis by (auto simp: process_response_def split: option.splits)
qed

lemma issue_request_eq:
  "issue_request ev slp msi url sess w =
     (if slp < msi then Some Session else None,
      network ev (length (trace w) + length (conn_events slp msi sess)) url,
      w\<lparr>trace := trace w @ conn_events slp msi sess @ [get_event slp msi url]\<rparr>)"
  using session_var_cases[of sess]
  by (auto simp add: issue_request_def conn_events_def get_event_def session_get_def
      requests_get_def now_def emit_def)

lemma finally_cleanup_noop:
  "finally_cleanup slp msi (if slp < msi then Some Session else None) w
     = (if slp < msi then Some Session else None, w)"
  by (simp add: finally_cleanup_def)

lemma fst_process_response:
  "fst (process_response ev r st slp w) =
     (case raise_for_status r of
        Some e \<Rightarrow> error_result st slp
      | None \<Rightarrow> if status_code r = 429
                then \<lparr>action = ''break'', site = st, sleep_time = slp, scraped = False\<rparr>
                else scrape_result st slp)"
  by (simp add: process_response_def scrape_result_def Let_def split: option.splits)

text \<open>One pass through the loop body for a target that is not skipped.\<close>

lemma scrape_step_not_skipped:
  assumes "unquoted_name ev st \<notin> set skip"
  shows "\<exists>evs w'.
           scrape_step ev skip msi st slp sess w
             = (fst (step_outcome (network ev (length (trace w) + length (conn_events slp msi sess)) (quote ev st)) st slp),
                snd (step_outcome (network ev (length (trace w) + length (conn_events slp msi sess)) (quote ev st)) st slp),
                if slp < msi then Some Session else None, w')
         \<and> trace w' = trace w @ conn_events slp msi sess @ [get_event slp msi (quote ev st)] @ evs
         \<and> quiet evs"
proof -
  let ?res = "network ev (length (trace w) + length (conn_events slp msi sess)) (quote ev st)"
  let ?w1 = "w\<lparr>trace := trace w @ conn_events slp msi sess @ [get_event slp msi (quote ev st)]\<rparr>"
  let ?s1 = "if slp < msi then Some Session else None"
  show ?thesis
  proof (cases ?res)
    case (Response r)
    obtain evs where evs: "trace (snd (process_response ev r st slp ?w1)) = trace ?w1 @ evs" "quiet evs"
      using process_response_quiet by blast
    obtain result w2 where pr: "process_response ev r st slp ?w1 = (result, w2)"
      by (cases "process_response ev r st slp ?w1")
    have res: "result = (case raise_for_status r of
        Some e \<Rightarrow> error_result st slp
      | None \<Rightarrow> if status_code r = 429
                then \<lparr>action = ''break'', site = st, sleep_time = slp, scraped = False\<rparr>
                else scrape_result st slp)"
      using fst_process_response[of ev r st slp ?w1] pr by simp
    let ?w3 = "logging DEBUG (''Processed response from '' @ st) w2"
    have tr: "trace ?w3 = trace w @ conn_events slp msi sess @ [get_event slp msi (quote ev st)]
                @ (evs @ [Log DEBUG (''Processed response from '' @ st)])"
      using evs pr by simp
    have q: "quiet (evs @ [Log DEBUG (''Processed response from '' @ st)])" using evs by simp
    have "scrape_step ev skip msi st slp sess w
             = (fst (step_outcome ?res st slp), snd (step_outcome ?res st slp), ?s1, ?w3)"
      using assms Response pr res
      by (simp add: scrape_step_def issue_request_eq finally_cleanup_noop Let_def
           error_result_def scrape_result_def split: option.splits)
    then show ?thesis using tr q by blast
  next
    case (Raises e)
    show ?thesis
    proof (cases e)
      case (RequestException re)
      let ?m = "if re = Timeout then ''Timeout occurred while trying to access '' @ st else ''Error scraping '' @ st"
      let ?w2 = "logging ERROR ?m ?w1"
      have "scrape_step ev skip msi st slp sess w
             = (fst (step_outcome ?res st slp), snd (step_outcome ?res st slp), ?s1, ?w2)"
        using assms Raises RequestException
        by (simp add: scrape_step_def issue_request_eq finally_cleanup_noop Let_def)
      moreover have "trace ?w2 = trace w @ conn_events slp msi sess @ [get_event slp msi (quote ev st)] @ [Log ERROR ?m]"
        by simp
      moreover have "quiet [Log ERROR ?m]" by simp
      ultimately show ?thesis by blast
    next
      case KeyboardInterrupt
      have "scrape_step ev skip msi st slp sess w
             = (fst (step_outcome ?res st slp), snd (step_outcome ?res st slp), ?s1, ?w1)"
        using assms Raises KeyboardInterrupt
        by (simp add: scrape_step_def issue_request_eq finally_cleanup_noop Let_def)
      moreover have "trace ?w1 = trace w @ conn_events slp msi sess @ [get_event slp msi (quote ev st)] @ []"
        by simp
      ultimately show ?thesis by (metis quiet_simps(1))
    next
      case FileNotFoundError
      have "scrape_step ev skip msi st slp sess w
             = (fst (step_outcome ?res st slp), snd (step_outcome ?res st slp), ?s1, ?w1)"
        using assms Raises FileNotFoundError
        by (simp add: scrape_step_def issue_request_eq finally_cleanup_noop Let_def)
      moreover have "trace ?w1 = trace w @ conn_events slp msi sess @ [get_event slp msi (quote ev st)] @ []"
        by simp
      ultimately show ?thesis by (metis quiet_simps(1))
    next
      case (ValueError m)
      have "scrape_step ev skip msi st slp sess w
             = (fst (step_outcome ?res st slp), snd (step_outcome ?res st slp), ?s1, ?w1)"
        using assms Raises ValueError
        by (simp add: scrape_step_def issue_request_eq finally_cleanup_noop Let_def)
      moreover have "trace ?w1 = trace w @ conn_events slp msi sess @ [get_event slp msi (quote ev st)] @ []"
        by simp
      ultimately show ?thesis by (metis quiet_simps(1))
    qed
  qed
qed

lemma scrape_step_skipped:
  assumes "unquoted_name ev st \<in> set skip"
  shows "scrape_step ev skip msi st slp sess w
           = (None, Next, sess,
              logging INFO (''Skipping '' @ st @ '' as it has already been scraped.'') w)"
  using assms by (simp add: scrape_step_def)

lemma conn_events_live:
  "live_of sess + live (conn_events slp msi sess) = live_of (if slp < msi then Some Session else None)"
  by (simp add: conn_events_def live_of_def)

lemma conn_events_within: "within_one (live_of sess) (conn_events slp msi sess)"
  by (simp add: conn_events_def live_of_def)

lemma get_event_simps [simp]:
  "url_of (get_event slp msi u) = [u]"
  "live_delta (get_event slp msi u) = 0"
  by (simp_all add: get_event_def)

lemma live_of_range: "0 \<le> live_of sess \<and> live_of sess \<le> 1"
  by (simp add: live_of_def)

lemma step_outcome_goes_on:
  "goes_on res \<Longrightarrow> step_outcome res st slp = (Some (if \<exists>r. res = Response r \<and> raise_for_status r = None then scrape_result st slp else error_result st slp), Next)"
  by (cases "(res, st, slp)" rule: step_outcome.cases) (auto split: option.splits)

lemma step_outcome_Next:
  "snd (step_outcome res st slp) = Next \<Longrightarrow> \<exists>y. fst (step_outcome res st slp) = Some y \<and> site y = st"
  by (cases "(res, st, slp)" rule: step_outcome.cases)
     (auto simp: error_result_def scrape_result_def split: option.splits if_splits)

lemma step_outcome_not_Next:
  "snd (step_outcome res st slp) \<noteq> Next \<Longrightarrow> fst (step_outcome res st slp) = None"
  by (cases "(res, st, slp)" rule: step_outcome.cases) (auto split: option.splits if_splits)

text \<open>What one pass through the loop body does to the trace and to the session variable.\<close>

lemma scrape_step_trace:
  assumes "scrape_step ev skip msi st slp sess w = (y, c, sess', w')"
  shows "\<exists>evs. trace w' = trace w @ evs \<and> within_one (live_of sess) evs
           \<and> live_of sess + live evs = live_of sess'
           \<and> fetched evs = (if unquoted_name ev st \<in> set skip then [] else [quote ev st])
           \<and> (c = Next \<longrightarrow> map site (the_list y) = (if unquoted_name ev st \<in> set skip then [] else [st]))
           \<and> (c \<noteq> Next \<longrightarrow> y = None)"
proof (cases "unquoted_name ev st \<in> set skip")
  case True
  then have "trace w' = trace w @ [Log INFO (''Skipping '' @ st @ '' as it has already been scraped.'')]"
    and "sess' = sess" and "y = None" and "c = Next"
    using assms by (auto simp add: scrape_step_skipped)
  then show ?thesis using True live_of_range[of sess]
    by (intro exI[of _ "[Log INFO (''Skipping '' @ st @ '' as it has already been scraped.'')]"]) simp
next
  case False
  let ?res = "network ev (length (trace w) + length (conn_events slp msi sess)) (quote ev st)"
  from scrape_step_not_skipped[OF False, of msi slp sess w] assms
  obtain evs where e: "y = fst (step_outcome ?res st slp)" "c = snd (step_outcome ?res st slp)"
      "sess' = (if slp < msi then Some Session else None)"
      "trace w' = trace w @ conn_events slp msi sess @ [get_event slp msi (quote ev st)] @ evs"
      "quiet evs"
    by auto
  let ?all = "conn_events slp msi sess @ [get_event slp msi (quote ev st)] @ evs"
  have l: "live_of sess + live ?all = live_of sess'"
    using conn_events_live[of sess slp msi] e(3,5) by (simp add: quiet_live)
  have w: "within_one (live_of sess) ?all"
    using conn_events_within[of sess slp msi] conn_events_live[of sess slp msi] e(5)
      live_of_range[of "if slp < msi then Some Session else None"]
    by (simp add: within_one_append quiet_within_one)
  have f: "fetched ?all = [quote ev st]"
    using e(5) by (simp add: quiet_fetched conn_events_def)
  have n: "c = Next \<longrightarrow> map site (the_list y) = [st]"
    using step_outcome_Next[of ?res st slp] e(1,2) by auto
  have b: "c \<noteq> Next \<longrightarrow> y = None"
    using step_outcome_not_Next[of ?res st slp] e(1,2) by auto
  show ?thesis using e(4) l w f n b False by (intro exI[of _ ?all]) simp
qed

text \<open>The loop: the trace it adds, the sessions it keeps, the targets it fetches.\<close>

lemma scrape_loop_trace:
  "scrape_loop ev skip msi items sess w = (ys, c, sess', w') \<Longrightarrow>
     \<exists>evs. trace w' = trace w @ evs \<and> within_one (live_of sess) evs
       \<and> live_of sess + live evs = live_of sess'
       \<and> prefix (fetched evs) (map (quote ev) (to_fetch ev skip items))
       \<and> prefix (map site ys) (to_fetch ev skip items)
       \<and> (c = Next \<longrightarrow> fetched evs = map (quote ev) (to_fetch ev skip items)
                       \<and> map site ys = to_fetch ev skip items)"
proof (induction items arbitrary: sess w ys c sess' w')
  case Nil
  then show ?case using live_of_range[of sess] by (simp add: to_fetch_def)
next
  case (Cons item rest)
  obtain st slp where item: "item = (st, slp)" by (cases item)
  obtain y c1 sess1 w1 where step: "scrape_step ev skip msi st slp sess w = (y, c1, sess1, w1)"
    by (cases "scrape_step ev skip msi st slp sess w") auto
  from scrape_step_trace[OF step]
  obtain e1 where e1: "trace w1 = trace w @ e1" "within_one (live_of sess) e1"
      "live_of sess + live e1 = live_of sess1"
      "fetched e1 = (if unquoted_name ev st \<in> set skip then [] else [quote ev st])"
      "c1 = Next \<longrightarrow> map site (the_list y) = (if unquoted_name ev st \<in> set skip then [] else [st])"
      "c1 \<noteq> Next \<longrightarrow> y = None"
    by blast
  have tf: "to_fetch ev skip (item # rest)
      = (if unquoted_name ev st \<in> set skip then [] else [st]) @ to_fetch ev skip rest"
    by (simp add: to_fetch_def item)
  show ?case
  proof (cases "c1 = Next")
    case True
    obtain ys2 c2 sess2 w2 where rec: "scrape_loop ev skip msi rest sess1 w1 = (ys2, c2, sess2, w2)"
      by (cases "scrape_loop ev skip msi rest sess1 w1") auto
    from Cons.IH[OF rec]
    obtain e2 where e2: "trace w2 = trace w1 @ e2" "within_one (live_of sess1) e2"
        "live_of sess1 + live e2 = live_of sess2"
        "prefix (fetched e2) (map (quote ev) (to_fetch ev skip rest))"
        "prefix (map site ys2) (to_fetch ev skip rest)"
        "c2 = Next \<longrightarrow> fetched e2 = map (quote ev) (to_fetch ev skip rest)
                       \<and> map site ys2 = to_fetch ev skip rest"
      by blast
    have res: "ys = the_list y @ ys2" "c = c2" "sess' = sess2" "w' = w2"
      using Cons.prems step rec True by (simp_all add: item)
    have "trace w' = trace w @ (e1 @ e2)" using e1(1) e2(1) res by simp
    moreover have "within_one (live_of sess) (e1 @ e2)"
      using e1(2,3) e2(2) by (simp add: within_one_append)
    moreover have "live_of sess + live (e1 @ e2) = live_of sess'"
      using e1(3) e2(3) res by simp
    moreover have "prefix (fetched (e1 @ e2)) (map (quote ev) (to_fetch ev skip (item # rest)))"
      using e1(4) e2(4) by (simp add: tf)
    moreover have "prefix (map site ys) (to_fetch ev skip (item # rest))"
      using e1(5) e2(5) True res by (simp add: tf)
    moreover have "c = Next \<longrightarrow> fetched (e1 @ e2) = map (quote ev) (to_fetch ev skip (item # rest))
                       \<and> map site ys = to_fetch ev skip (item # rest)"
      using e1(4,5) e2(6) True res by (simp add: tf)
    ultimately show ?thesis by blast
  next
    case False
    have res: "ys = []" "c = c1" "sess' = sess1" "w' = w1"
      using Cons.prems step False e1(6) by (simp_all add: item)
    have "prefix (fetched e1) (map (quote ev) (to_fetch ev skip (item # rest)))"
      using e1(4) by (simp add: tf)
    then show ?thesis using e1(1,2,3) res False by (intro exI[of _ e1]) simp
  qed
qed

lemma scrape_step_goes_on:
  assumes "\<forall>t. goes_on (network ev t (quote ev st))"
  shows "fst (snd (scrape_step ev skip msi st slp sess w)) = Next"
proof (cases "unquoted_name ev st \<in> set skip")
  case True
  then show ?thesis by (simp add: scrape_step_skipped)
next
  case False
  from scrape_step_not_skipped[OF False, of msi slp sess w] assms
  show ?thesis by (auto simp: step_outcome_goes_on)
qed

lemma scrape_loop_goes_on:
  assumes "\<forall>s\<in>set (map fst items). \<forall>t. goes_on (network ev t (quote ev s))"
  shows "fst (snd (scrape_loop ev skip msi items sess w)) = Next"
  using assms
proof (induction items arbitrary: sess w)
  case Nil
  then show ?case by simp
next
  case (Cons item rest)
  obtain st slp where item: "item = (st, slp)" by (cases item)
  obtain y c1 sess1 w1 where step: "scrape_step ev skip msi st slp sess w = (y, c1, sess1, w1)"
    by (cases "scrape_step ev skip msi st slp sess w") auto
  have "\<forall>t. goes_on (network ev t (quote ev st))" using Cons.prems by (simp add: item)
  then have "c1 = Next" using scrape_step_goes_on[of ev st skip msi slp sess w] step by simp
  moreover have "fst (snd (scrape_loop ev skip msi rest sess1 w1)) = Next"
    using Cons.prems by (intro Cons.IH) simp
  ultimately show ?case using step
    by (auto simp add: item split: prod.splits)
qed

text \<open>A request answered by a response that \<^verbatim>\<open>process_response\<close> classifies as \<^verbatim>\<open>break\<close>.\<close>

lemma scrape_step_break:
  assumes "unquoted_name ev st \<notin> set skip"
      and "\<forall>t. \<exists>r. network ev t (quote ev st) = Response r
              \<and> raise_for_status r = None \<and> status_code r = 429"
  shows "\<exists>evs sess' w'. scrape_step ev skip msi st slp sess w = (None, Break, sess', w')
           \<and> trace w' = trace w @ evs \<and> fetched evs = [quote ev st]"
proof -
  let ?res = "network ev (length (trace w) + length (conn_events slp msi sess)) (quote ev st)"
  obtain r where r: "?res = Response r" "raise_for_status r = None" "status_code r = 429"
    using assms(2) by blast
  from scrape_step_not_skipped[OF assms(1), of msi slp sess w]
  obtain evs w' where e:
      "scrape_step ev skip msi st slp sess w
         = (fst (step_outcome ?res st slp), snd (step_outcome ?res st slp),
            if slp < msi then Some Session else None, w')"
      "trace w' = trace w @ conn_events slp msi sess @ [get_event slp msi (quote ev st)] @ evs"
      "quiet evs"
    by blast
  have "step_outcome ?res st slp = (None, Break)" using r by simp
  moreover have "fetched (conn_events slp msi sess @ [get_event slp msi (quote ev st)] @ evs)
      = [quote ev st]"
    using e(3) by (simp add: quiet_fetched conn_events_def)
  ultimately show ?thesis using e(1,2) by fastforce
qed

text \<open>
  A batch whose first targets go on and whose next target is classified \<^verbatim>\<open>break\<close>: the
  loop is left there, with the results of the targets before it and nothing after.
\<close>

lemma scrape_loop_break:
  assumes "\<forall>s\<in>set (map fst pre). \<forall>t. goes_on (network ev t (quote ev s))"
      and "unquoted_name ev st \<notin> set skip"
      and "\<forall>t. \<exists>r. network ev t (quote ev st) = Response r
              \<and> raise_for_status r = None \<and> status_code r = 429"
  shows "\<exists>ys evs sess' w'.
           scrape_loop ev skip msi (pre @ (st, slp) # post) sess w = (ys, Break, sess', w')
         \<and> map site ys = to_fetch ev skip pre
         \<and> trace w' = trace w @ evs
         \<and> fetched evs = map (quote ev) (to_fetch ev skip pre) @ [quote ev st]
         \<and> live_of sess + live evs = live_of sess'"
  using assms(1)
proof (induction pre arbitrary: sess w)
  case Nil
  from scrape_step_break[OF assms(2,3), of msi slp sess w]
  obtain evs sess' w' where e: "scrape_step ev skip msi st slp sess w = (None, Break, sess', w')"
      "trace w' = trace w @ evs" "fetched evs = [quote ev st]"
    by blast
  from scrape_step_trace[OF e(1)] e(2)
  have "live_of sess + live evs = live_of sess'" by auto
  then show ?case using e by (simp add: to_fetch_def)
next
  case (Cons item rest)
  obtain s d where item: "item = (s, d)" by (cases item)
  obtain y c1 sess1 w1 where step: "scrape_step ev skip msi s d sess w = (y, c1, sess1, w1)"
    by (cases "scrape_step ev skip msi s d sess w") auto
  have "\<forall>t. goes_on (network ev t (quote ev s))" using Cons.prems by (simp add: item)
  then have c1: "c1 = Next" using scrape_step_goes_on[of ev s skip msi d sess w] step by simp
  from scrape_step_trace[OF step] c1
  obtain e1 where e1: "trace w1 = trace w @ e1" "live_of sess + live e1 = live_of sess1"
      "fetched e1 = (if unquoted_name ev s \<in> set skip then [] else [quote ev s])"
      "map site (the_list y) = (if unquoted_name ev s \<in> set skip then [] else [s])"
    by auto
  have "\<forall>s\<in>set (map fst rest). \<forall>t. goes_on (network ev t (quote ev s))"
    using Cons.prems by simp
  from Cons.IH[OF this, of sess1 w1]
  obtain ys2 e2 sess2 w2 where r:
      "scrape_loop ev skip msi (rest @ (st, slp) # post) sess1 w1 = (ys2, Break, sess2, w2)"
      "map site ys2 = to_fetch ev skip rest" "trace w2 = trace w1 @ e2"
      "fetched e2 = map (quote ev) (to_fetch ev skip rest) @ [quote ev st]"
      "live_of sess1 + live e2 = live_of sess2"
    by blast
  have "scrape_loop ev skip msi ((item # rest) @ (st, slp) # post) sess w
          = (the_list y @ ys2, Break, sess2, w2)"
    using step c1 r(1) by (simp add: item)
  moreover have "map site (the_list y @ ys2) = to_fetch ev skip (item # rest)"
    using e1(4) r(2) by (simp add: to_fetch_def item)
  moreover have "trace w2 = trace w @ (e1 @ e2)" using e1(1) r(3) by simp
  moreover have "fetched (e1 @ e2) = map (quote ev) (to_fetch ev skip (item # rest)) @ [quote ev st]"
    using e1(3) r(4) by (simp add: to_fetch_def item)
  moreover have "live_of sess + live (e1 @ e2) = live_of sess2" using e1(2) r(5) by simp
  ultimately show ?case by blast
qed

lemma within_one_prefix:
  "within_one c es = (\<forall>p. prefix p es \<longrightarrow> 0 \<le> c + live p \<and> c + live p \<le> 1)"
proof (induction es arbitrary: c)
  case Nil
  then show ?case by simp
next
  case (Cons e es)
  show ?case
  proof
    assume a: "within_one c (e # es)"
    show "\<forall>p. prefix p (e # es) \<longrightarrow> 0 \<le> c + live p \<and> c + live p \<le> 1"
    proof (intro allI impI)
      fix p assume p: "prefix p (e # es)"
      show "0 \<le> c + live p \<and> c + live p \<le> 1"
      proof (cases p)
        case Nil
        then show ?thesis using a by simp
      next
        case (Cons x q)
        then have "x = e" "prefix q es" using p by simp_all
        moreover have "within_one (c + live_delta e) es" using a by simp
        ultimately show ?thesis using Cons.IH[of "c + live_delta e"] Cons
          by (simp add: add.assoc)
      qed
    qed
  next
    assume a: "\<forall>p. prefix p (e # es) \<longrightarrow> 0 \<le> c + live p \<and> c + live p \<le> 1"
    have "0 \<le> c \<and> c \<le> 1" using a[rule_format, of "[]"] by simp
    moreover have "\<forall>p. prefix p es \<longrightarrow> 0 \<le> c + live_delta e + live p \<and> c + live_delta e + live p \<le> 1"
    proof (intro allI impI)
      fix p assume "prefix p es"
      then have "prefix (e # p) (e # es)" by simp
      from a[rule_format, OF this] show "0 \<le> c + live_delta e + live p \<and> c + live_delta e + live p \<le> 1"
        by (simp add: add.assoc)
    qed
    ultimately show "within_one c (e # es)" using Cons.IH[of "c + live_delta e"] by simp
  qed
qed

text \<open>The whole run of \<^verbatim>\<open>scrape_sites\<close> when the directory exists.\<close>

lemma scrape_sites_run:
  assumes "dir_exists w"
  shows "\<exists>ys e w' evs. scrape_sites ev sites sleep_times msi w = (ys, e, w')
           \<and> trace w' = trace w @ evs
           \<and> within_one 0 evs
           \<and> (e = Returned \<or> e = Raised KeyboardInterrupt \<longrightarrow> live evs = 0)
           \<and> prefix (fetched evs) (map (quote ev) (to_fetch ev (skip_sites_of w) (zip sites sleep_times)))
           \<and> prefix (map site ys) (to_fetch ev (skip_sites_of w) (zip sites sleep_times))"
proof -
  let ?skip = "skip_sites_of w"
  let ?items = "zip sites sleep_times"
  obtain ys c sess w1 where loop: "scrape_loop ev ?skip msi ?items None w = (ys, c, sess, w1)"
    by (cases "scrape_loop ev ?skip msi ?items None w") auto
  from scrape_loop_trace[OF loop]
  obtain e1 where e1: "trace w1 = trace w @ e1" "within_one 0 e1" "live e1 = live_of sess"
      "prefix (fetched e1) (map (quote ev) (to_fetch ev ?skip ?items))"
      "prefix (map site ys) (to_fetch ev ?skip ?items)"
    by (auto simp: live_of_def)
  have sess: "sess = None \<or> sess = Some Session" by (rule session_var_cases)
  show ?thesis
  proof (cases c)
    case Next
    let ?cl = "if sess \<noteq> None then [SessionClose] else []"
    have "scrape_sites ev sites sleep_times msi w
            = (ys, Returned, if sess \<noteq> None then emit SessionClose w1 else w1)"
      using assms loop Next by (simp add: scrape_sites_def Let_def)
    moreover have "trace (if sess \<noteq> None then emit SessionClose w1 else w1) = trace w @ (e1 @ ?cl)"
      using e1(1) by simp
    moreover have "within_one 0 (e1 @ ?cl)" using e1(2,3) sess
      by (auto simp: within_one_append live_of_def)
    moreover have "live (e1 @ ?cl) = 0" using e1(3) sess by (auto simp: live_of_def)
    moreover have "fetched (e1 @ ?cl) = fetched e1" by simp
    ultimately show ?thesis using e1(4,5) by (metis (no_types, lifting))
  next
    case Break
    let ?cl = "if sess \<noteq> None then [SessionClose] else []"
    have "scrape_sites ev sites sleep_times msi w
            = (ys, Returned, if sess \<noteq> None then emit SessionClose w1 else w1)"
      using assms loop Break by (simp add: scrape_sites_def Let_def)
    moreover have "trace (if sess \<noteq> None then emit SessionClose w1 else w1) = trace w @ (e1 @ ?cl)"
      using e1(1) by simp
    moreover have "within_one 0 (e1 @ ?cl)" using e1(2,3) sess
      by (auto simp: within_one_append live_of_def)
    moreover have "live (e1 @ ?cl) = 0" using e1(3) sess by (auto simp: live_of_def)
    moreover have "fetched (e1 @ ?cl) = fetched e1" by simp
    ultimately show ?thesis using e1(4,5) by (metis (no_types, lifting))
  next
    case (Propagate x)
    show ?thesis
    proof (cases "x = KeyboardInterrupt")
      case True
      let ?cl = "Log INFO ''Scraping interrupted by user.'' #
                 (if sess \<noteq> None then [SessionClose, Log INFO ''Session closed after interruption.''] else [])"
      let ?w3 = "if sess \<noteq> None
                 then logging INFO ''Session closed after interruption.''
                        (emit SessionClose (logging INFO ''Scraping interrupted by user.'' w1))
                 else logging INFO ''Scraping interrupted by user.'' w1"
      have "scrape_sites ev sites sleep_times msi w = (ys, Raised x, ?w3)"
        using assms loop Propagate True by (simp add: scrape_sites_def Let_def)
      moreover have "trace ?w3 = trace w @ (e1 @ ?cl)" using e1(1) by simp
      moreover have "within_one 0 (e1 @ ?cl)" using e1(2,3) sess
        by (auto simp: within_one_append live_of_def)
      moreover have "live (e1 @ ?cl) = 0" using e1(3) sess by (auto simp: live_of_def)
      moreover have "fetched (e1 @ ?cl) = fetched e1" by simp
      ultimately show ?thesis using e1(4,5) by (metis (no_types, lifting))
    next
      case False
      have "scrape_sites ev sites sleep_times msi w = (ys, Raised x, w1)"
        using assms loop Propagate False by (simp add: scrape_sites_def Let_def)
      then show ?thesis using e1 False by auto
    qed
  qed
qed

lemma scrape_sites_goes_on:
  assumes "dir_exists w"
      and "\<forall>s\<in>set sites. \<forall>t. goes_on (network ev t (quote ev s))"
  shows "\<exists>ys w' evs. scrape_sites ev sites sleep_times msi w = (ys, Returned, w')
           \<and> trace w' = trace w @ evs
           \<and> fetched evs = map (quote ev) (to_fetch ev (skip_sites_of w) (zip sites sleep_times))
           \<and> map site ys = to_fetch ev (skip_sites_of w) (zip sites sleep_times)"
proof -
  let ?skip = "skip_sites_of w"
  let ?items = "zip sites sleep_times"
  obtain ys c sess w1 where loop: "scrape_loop ev ?skip msi ?items None w = (ys, c, sess, w1)"
    by (cases "scrape_loop ev ?skip msi ?items None w") auto
  have "\<forall>s\<in>set (map fst ?items). \<forall>t. goes_on (network ev t (quote ev s))"
    using assms(2) by (auto dest: set_zip_leftD)
  from scrape_loop_goes_on[OF this, of ?skip msi None w] loop
  have c: "c = Next" by simp
  from scrape_loop_trace[OF loop] c
  obtain e1 where e1: "trace w1 = trace w @ e1"
      "fetched e1 = map (quote ev) (to_fetch ev ?skip ?items)"
      "map site ys = to_fetch ev ?skip ?items"
    by auto
  let ?cl = "if sess \<noteq> None then [SessionClose] else []"
  have "scrape_sites ev sites sleep_times msi w
          = (ys, Returned, if sess \<noteq> None then emit SessionClose w1 else w1)"
    using assms(1) loop c by (simp add: scrape_sites_def Let_def)
  moreover have "trace (if sess \<noteq> None then emit SessionClose w1 else w1) = trace w @ (e1 @ ?cl)"
    using e1(1) by simp
  moreover have "fetched (e1 @ ?cl) = map (quote ev) (to_fetch ev ?skip ?items)"
    using e1(2) by simp
  ultimately show ?thesis using e1(3) by blast
qed

section \<open>Rounding to a double\<close>

lemma rhe_of_int [simp]: "rhe (of_int k) = k"
  by (simp add: rhe_def)

lemma rhe_numeral [simp]: "rhe (numeral n) = numeral n"
  using rhe_of_int[of "numeral n"] by simp

lemma rhe_near:
  assumes "of_int k - 1 / 2 < q" "q < of_int k + 1 / 2"
  shows "rhe q = k"
proof (cases "of_int k \<le> q")
  case True
  then have "\<lfloor>q\<rfloor> = k" using assms by (intro floor_unique) auto
  then show ?thesis using assms by (simp add: rhe_def)
next
  case False
  then have f: "\<lfloor>q\<rfloor> = k - 1" using assms by (intro floor_unique) auto
  then show ?thesis using assms by (simp add: rhe_def)
qed

lemma rhe_tie_even:
  assumes "q = of_int k + 1 / 2" "even k"
  shows "rhe q = k"
proof -
  have "\<lfloor>q\<rfloor> = k" using assms by (intro floor_unique) auto
  then show ?thesis using assms by (simp add: rhe_def)
qed

lemma rhe_ge_floor: "\<lfloor>q\<rfloor> \<le> rhe q"
  by (simp add: rhe_def)

lemma rhe_le_floor1: "rhe q \<le> \<lfloor>q\<rfloor> + 1"
  by (simp add: rhe_def)

lemma rhe_mono:
  assumes "q1 \<le> q2"
  shows "rhe q1 \<le> rhe q2"
proof (cases "\<lfloor>q1\<rfloor> = \<lfloor>q2\<rfloor>")
  case True
  then show ?thesis using assms by (auto simp: rhe_def)
next
  case False
  moreover have "\<lfloor>q1\<rfloor> \<le> \<lfloor>q2\<rfloor>" using assms by (rule floor_mono)
  ultimately have "\<lfloor>q1\<rfloor> + 1 \<le> \<lfloor>q2\<rfloor>" by simp
  then show ?thesis using rhe_le_floor1[of q1] rhe_ge_floor[of q2] by linarith
qed

lemma rhe_frac:
  assumes "0 \<le> r" "r < 1"
  shows "rhe (of_int f + r)
           = (if r < 1 / 2 then f else if 1 / 2 < r then f + 1
              else if even f then f else f + 1)"
proof -
  have "\<lfloor>of_int f + r\<rfloor> = f" using assms by (intro floor_unique) auto
  then show ?thesis by (simp add: rhe_def)
qed

lemma rhe_minus: "rhe (- q) = - rhe q"
proof (cases "q = of_int \<lfloor>q\<rfloor>")
  case True
  then obtain k where "q = of_int k" by metis
  then show ?thesis by (simp flip: of_int_minus)
next
  case False
  define f where "f = \<lfloor>q\<rfloor>"
  define r where "r = q - of_int f"
  have "of_int f < q"
    using False unfolding f_def by (metis of_int_floor_le order_le_imp_less_or_eq)
  then have r: "0 < r" "r < 1" unfolding r_def f_def by linarith+
  have q: "q = of_int f + r" by (simp add: r_def)
  have mq: "- q = of_int (- f - 1) + (1 - r)" by (simp add: r_def)
  have a: "rhe q = (if r < 1 / 2 then f else if 1 / 2 < r then f + 1
              else if even f then f else f + 1)"
    unfolding q using r by (intro rhe_frac) auto
  have b: "rhe (- q) = (if 1 - r < 1 / 2 then - f - 1 else if 1 / 2 < 1 - r then - f - 1 + 1
              else if even (- f - 1) then - f - 1 else - f - 1 + 1)"
    unfolding mq using r by (intro rhe_frac) auto
  show ?thesis unfolding a b by auto
qed


lemma double_zero [simp]: "double 0 = 0"
  by (simp add: double_def)

lemma double_minus: "double (- x) = - double x"
  by (simp add: double_def rhe_minus)

lemma two_powr_int_add: "(2::real) powr of_int a * 2 powr of_int b = 2 powr of_int (a + b)"
  by (simp add: powr_add)

text \<open>A positive number lies in the binade of its exponent, and so does its double.\<close>

lemma double_pos_range:
  assumes "0 < x"
  shows "2 powr of_int \<lfloor>log 2 x\<rfloor> \<le> double x"
    and "double x \<le> 2 powr of_int (\<lfloor>log 2 x\<rfloor> + 1)"
proof -
  define e where "e = \<lfloor>log 2 x\<rfloor>"
  define s where "s = (2::real) powr of_int (52 - e)"
  have s: "0 < s" by (simp add: s_def)
  have b: "2 powr of_int e \<le> x" "x < 2 powr (of_int e + 1)"
    using floor_log_eq_powr_iff[of x 2 e] assms by (simp_all add: e_def)
  have lo: "of_int ((2::int) ^ 52) \<le> x * s"
  proof -
    have "2 powr of_int e * s \<le> x * s" using b(1) s by simp
    moreover have "2 powr of_int e * s = 2 powr of_int (52::int)"
      unfolding s_def two_powr_int_add by simp
    moreover have "(2::real) powr of_int (52::int) = 2 ^ 52"
      using powr_realpow[of "2::real" 52] by simp
    ultimately show ?thesis by simp
  qed
  have hi: "x * s \<le> of_int ((2::int) ^ 53)"
  proof -
    have "x * s \<le> 2 powr (of_int e + 1) * s" using b(2) s by simp
    moreover have "2 powr (of_int e + 1) * s = 2 powr of_int (53::int)"
      unfolding s_def by (simp flip: powr_add)
    moreover have "(2::real) powr of_int (53::int) = 2 ^ 53"
      using powr_realpow[of "2::real" 53] by simp
    ultimately show ?thesis by simp
  qed
  have r1: "(2::int) ^ 52 \<le> rhe (x * s)" using rhe_mono[OF lo] by simp
  have r2: "rhe (x * s) \<le> (2::int) ^ 53" using rhe_mono[OF hi] by simp
  have d: "double x = of_int (rhe (x * s)) * 2 powr of_int (e - 52)"
    using assms by (simp add: double_def e_def s_def)
  have t: "0 < (2::real) powr of_int (e - 52)" by simp
  have "of_int ((2::int) ^ 52) * 2 powr of_int (e - 52) \<le> double x"
    unfolding d using r1 t by (simp del: of_int_power of_int_numeral)
  moreover have "of_int ((2::int) ^ 52) * 2 powr of_int (e - 52) = (2::real) powr of_int e"
  proof -
    have "(2::real) powr of_int (52::int) = 2 ^ 52"
      using powr_realpow[of "2::real" 52] by simp
    then have "of_int ((2::int) ^ 52) * 2 powr of_int (e - 52)
        = (2::real) powr of_int (52::int) * 2 powr of_int (e - 52)" by simp
    also have "\<dots> = 2 powr of_int e" unfolding two_powr_int_add by simp
    finally show ?thesis .
  qed
  ultimately show "2 powr of_int \<lfloor>log 2 x\<rfloor> \<le> double x" by (simp add: e_def)
  have "double x \<le> of_int ((2::int) ^ 53) * 2 powr of_int (e - 52)"
    unfolding d using r2 t by (simp del: of_int_power of_int_numeral)
  moreover have "of_int ((2::int) ^ 53) * 2 powr of_int (e - 52)
      = (2::real) powr of_int (e + 1)"
  proof -
    have "(2::real) powr of_int (53::int) = 2 ^ 53"
      using powr_realpow[of "2::real" 53] by simp
    then have "of_int ((2::int) ^ 53) * 2 powr of_int (e - 52)
        = (2::real) powr of_int (53::int) * 2 powr of_int (e - 52)" by simp
    also have "\<dots> = 2 powr of_int (e + 1)"
      unfolding two_powr_int_add by (simp add: add.commute)
    finally show ?thesis .
  qed
  ultimately show "double x \<le> 2 powr of_int (\<lfloor>log 2 x\<rfloor> + 1)" by (simp add: e_def)
qed

lemma double_pos: "0 < x \<Longrightarrow> 0 < double x"
  using double_pos_range(1)[of x] powr_gt_zero[of 2 "of_int \<lfloor>log 2 x\<rfloor>"] by linarith

lemma double_mono_pos:
  assumes "0 < x" "x \<le> y"
  shows "double x \<le> double y"
proof (cases "\<lfloor>log 2 x\<rfloor> = \<lfloor>log 2 y\<rfloor>")
  case True
  have y: "0 < y" using assms by simp
  let ?s = "(2::real) powr of_int (52 - \<lfloor>log 2 y\<rfloor>)"
  have "x * ?s \<le> y * ?s" using assms(2) by simp
  then have "rhe (x * ?s) \<le> rhe (y * ?s)" by (rule rhe_mono)
  then have "of_int (rhe (x * ?s)) * (2::real) powr of_int (\<lfloor>log 2 y\<rfloor> - 52)
      \<le> of_int (rhe (y * ?s)) * 2 powr of_int (\<lfloor>log 2 y\<rfloor> - 52)"
    by simp
  then show ?thesis using assms y True by (simp add: double_def)
next
  case False
  have y: "0 < y" using assms by simp
  have "log 2 x \<le> log 2 y" using assms by simp
  then have "\<lfloor>log 2 x\<rfloor> \<le> \<lfloor>log 2 y\<rfloor>" by (rule floor_mono)
  then have "\<lfloor>log 2 x\<rfloor> + 1 \<le> \<lfloor>log 2 y\<rfloor>" using False by simp
  then have "(2::real) powr of_int (\<lfloor>log 2 x\<rfloor> + 1) \<le> 2 powr of_int \<lfloor>log 2 y\<rfloor>"
    by (intro powr_mono) simp_all
  then show ?thesis
    using double_pos_range(2)[OF assms(1)] double_pos_range(1)[OF y] by linarith
qed

lemma double_mono:
  assumes "x \<le> y"
  shows "double x \<le> double y"
proof -
  consider "0 < x" | "x = 0" | "x < 0" "0 < y" | "x < 0" "y = 0" | "x < 0" "y < 0"
    using assms by linarith
  then show ?thesis
  proof cases
    case 1
    then show ?thesis using assms by (rule double_mono_pos)
  next
    case 2
    then show ?thesis using assms double_pos[of y] by (cases "y = 0") auto
  next
    case 3
    then have "0 < double y" "0 < double (- x)" by (simp_all add: double_pos)
    then show ?thesis by (simp add: double_minus)
  next
    case 4
    then have "0 < double (- x)" by (simp add: double_pos)
    then show ?thesis using 4 by (simp add: double_minus)
  next
    case 5
    then have "double (- y) \<le> double (- x)" using assms by (intro double_mono_pos) auto
    then show ?thesis by (simp add: double_minus)
  qed
qed

lemma double_nonneg: "0 \<le> x \<Longrightarrow> 0 \<le> double x"
  using double_mono[of 0 x] by simp

text \<open>Evaluating a rounding: scale by \<open>2 ^ c\<close> into the range of 53-bit integers.\<close>

lemma double_exponent:
  assumes "2 ^ 52 \<le> \<bar>x\<bar> * 2 ^ c" "\<bar>x\<bar> * 2 ^ c < 2 ^ 53"
  shows "\<lfloor>log 2 \<bar>x\<bar>\<rfloor> = 52 - int c"
proof -
  have x: "0 < \<bar>x\<bar>" using assms(1) by (cases "x = 0") auto
  have p: "(2::real) powr of_int (int c) = 2 ^ c" using powr_realpow[of "2::real" c] by simp
  have p52: "(2::real) powr of_int (52::int) = 2 ^ 52"
    using powr_realpow[of "2::real" 52] by simp
  have p53: "(2::real) powr of_int (53::int) = 2 ^ 53"
    using powr_realpow[of "2::real" 53] by simp
  have a: "2 powr of_int (52 - int c) * 2 ^ c = (2::real) ^ 52"
    unfolding p[symmetric] two_powr_int_add using p52 by simp
  have b: "2 powr (of_int (52 - int c) + 1) * 2 ^ c = (2::real) ^ 53"
  proof -
    have "of_int (52 - int c) + (1::real) = of_int (53 - int c)" by simp
    then show ?thesis unfolding p[symmetric] using p53 two_powr_int_add[of "53 - int c" "int c"]
      by simp
  qed
  have "2 powr of_int (52 - int c) \<le> \<bar>x\<bar>"
  proof -
    have "2 powr of_int (52 - int c) * 2 ^ c \<le> \<bar>x\<bar> * 2 ^ c" using assms(1) a by simp
    then show ?thesis by simp
  qed
  moreover have "\<bar>x\<bar> < 2 powr (of_int (52 - int c) + 1)"
  proof -
    have "\<bar>x\<bar> * 2 ^ c < 2 powr (of_int (52 - int c) + 1) * 2 ^ c" using assms(2) b by simp
    then show ?thesis by simp
  qed
  ultimately show ?thesis using floor_log_eq_powr_iff[of "\<bar>x\<bar>" 2 "52 - int c"] x by simp
qed

lemma double_scaled:
  assumes "2 ^ 52 \<le> \<bar>x\<bar> * 2 ^ c" "\<bar>x\<bar> * 2 ^ c < 2 ^ 53"
  shows "double x = of_int (rhe (x * 2 ^ c)) / 2 ^ c"
proof -
  have x: "x \<noteq> 0" using assms(1) by auto
  have e: "\<lfloor>log 2 \<bar>x\<bar>\<rfloor> = 52 - int c" using assms by (rule double_exponent)
  have p: "(2::real) powr of_int (int c) = 2 ^ c" using powr_realpow[of "2::real" c] by simp
  have m: "(2::real) powr of_int (- int c) = 1 / 2 ^ c"
    using p by (simp add: powr_minus divide_inverse)
  show ?thesis using x p m by (simp add: double_def e)
qed

lemma double_eval:
  assumes "2 ^ 52 \<le> \<bar>x\<bar> * 2 ^ c" "\<bar>x\<bar> * 2 ^ c < 2 ^ 53"
      and "of_int k - 1 / 2 < x * 2 ^ c" "x * 2 ^ c < of_int k + 1 / 2"
  shows "double x = of_int k / 2 ^ c"
  using double_scaled[OF assms(1,2)] rhe_near[OF assms(3,4)] by simp

lemma double_eval_tie:
  assumes "2 ^ 52 \<le> \<bar>x\<bar> * 2 ^ c" "\<bar>x\<bar> * 2 ^ c < 2 ^ 53"
      and "x * 2 ^ c = of_int k + 1 / 2" "even k"
  shows "double x = of_int k / 2 ^ c"
  using double_scaled[OF assms(1,2)] rhe_tie_even[OF assms(3,4)] by simp


lemma rhe_tie_odd:
  assumes "q = of_int k - 1 / 2" "even k"
  shows "rhe q = k"
proof -
  have "\<lfloor>q\<rfloor> = k - 1" using assms by (intro floor_unique) auto
  then show ?thesis using assms by (simp add: rhe_def)
qed

lemma double_eval_tie_up:
  assumes "2 ^ 52 \<le> \<bar>x\<bar> * 2 ^ c" "\<bar>x\<bar> * 2 ^ c < 2 ^ 53"
      and "x * 2 ^ c = of_int k - 1 / 2" "even k"
  shows "double x = of_int k / 2 ^ c"
  using double_scaled[OF assms(1,2)] rhe_tie_odd[OF assms(3,4)] by simp

lemma rhe_err: "\<bar>of_int (rhe q) - q\<bar> \<le> 1 / 2"
proof -
  have "of_int \<lfloor>q\<rfloor> \<le> q" "q < of_int \<lfloor>q\<rfloor> + 1" by linarith+
  then show ?thesis by (auto simp: rhe_def)
qed

text \<open>The scaled form of the double of a positive number.\<close>

lemma double_pos_form:
  assumes "0 < x"
  shows "double x = of_int (rhe (x * 2 powr of_int (52 - \<lfloor>log 2 x\<rfloor>)))
                      * 2 powr of_int (\<lfloor>log 2 x\<rfloor> - 52)"
    and "2 ^ 52 \<le> x * 2 powr of_int (52 - \<lfloor>log 2 x\<rfloor>)"
    and "2 ^ 52 \<le> rhe (x * 2 powr of_int (52 - \<lfloor>log 2 x\<rfloor>))"
    and "rhe (x * 2 powr of_int (52 - \<lfloor>log 2 x\<rfloor>)) \<le> 2 ^ 53"
proof -
  define e where "e = \<lfloor>log 2 x\<rfloor>"
  define s where "s = (2::real) powr of_int (52 - e)"
  have s: "0 < s" by (simp add: s_def)
  have b: "2 powr of_int e \<le> x" "x < 2 powr (of_int e + 1)"
    using floor_log_eq_powr_iff[of x 2 e] assms by (simp_all add: e_def)
  have lo: "of_int ((2::int) ^ 52) \<le> x * s"
  proof -
    have "2 powr of_int e * s \<le> x * s" using b(1) s by simp
    moreover have "2 powr of_int e * s = 2 powr of_int (52::int)"
      unfolding s_def two_powr_int_add by simp
    moreover have "(2::real) powr of_int (52::int) = 2 ^ 52"
      using powr_realpow[of "2::real" 52] by simp
    ultimately show ?thesis by simp
  qed
  have hi: "x * s \<le> of_int ((2::int) ^ 53)"
  proof -
    have "x * s \<le> 2 powr (of_int e + 1) * s" using b(2) s by simp
    moreover have "2 powr (of_int e + 1) * s = 2 powr of_int (53::int)"
      unfolding s_def by (simp flip: powr_add)
    moreover have "(2::real) powr of_int (53::int) = 2 ^ 53"
      using powr_realpow[of "2::real" 53] by simp
    ultimately show ?thesis by simp
  qed
  show "double x = of_int (rhe (x * 2 powr of_int (52 - \<lfloor>log 2 x\<rfloor>)))
                      * 2 powr of_int (\<lfloor>log 2 x\<rfloor> - 52)"
    using assms by (simp add: double_def)
  show "2 ^ 52 \<le> x * 2 powr of_int (52 - \<lfloor>log 2 x\<rfloor>)"
    using lo by (simp add: s_def e_def)
  show "2 ^ 52 \<le> rhe (x * 2 powr of_int (52 - \<lfloor>log 2 x\<rfloor>))"
    using rhe_mono[OF lo] by (simp add: s_def e_def)
  show "rhe (x * 2 powr of_int (52 - \<lfloor>log 2 x\<rfloor>)) \<le> 2 ^ 53"
    using rhe_mono[OF hi] by (simp add: s_def e_def)
qed

text \<open>Rounding changes a number by at most the factor \<open>1 + 2\<^sup>-\<^sup>5\<^sup>3\<close>, either way.\<close>

lemma double_le:
  assumes "0 \<le> x"
  shows "double x \<le> x * (1 + 1 / 2 ^ 53)"
proof (cases "x = 0")
  case True
  then show ?thesis by simp
next
  case False
  then have x: "0 < x" using assms by simp
  define s where "s = (2::real) powr of_int (52 - \<lfloor>log 2 x\<rfloor>)"
  define r where "r = rhe (x * s)"
  have s: "0 < s" by (simp add: s_def)
  have inv: "(2::real) powr of_int (\<lfloor>log 2 x\<rfloor> - 52) = 1 / s"
    unfolding s_def by (simp add: powr_diff)
  have d: "double x = of_int r / s"
    using double_pos_form(1)[OF x] inv by (simp add: r_def s_def)
  have q: "2 ^ 52 \<le> x * s" using double_pos_form(2)[OF x] by (simp add: s_def)
  have "of_int r \<le> x * s + 1 / 2" unfolding r_def using rhe_err[of "x * s"] by linarith
  also have "\<dots> \<le> x * s + x * s / 2 ^ 53" using q by (simp add: mult.commute)
  finally have "of_int r \<le> (x * (1 + 1 / 2 ^ 53)) * s" by (simp add: algebra_simps)
  then show ?thesis unfolding d using s by (simp add: pos_divide_le_eq)
qed

lemma le_double:
  assumes "0 \<le> x"
  shows "x \<le> double x * (1 + 1 / 2 ^ 53)"
proof (cases "x = 0")
  case True
  then show ?thesis by simp
next
  case False
  then have x: "0 < x" using assms by simp
  define s where "s = (2::real) powr of_int (52 - \<lfloor>log 2 x\<rfloor>)"
  define r where "r = rhe (x * s)"
  have s: "0 < s" by (simp add: s_def)
  have inv: "(2::real) powr of_int (\<lfloor>log 2 x\<rfloor> - 52) = 1 / s"
    unfolding s_def by (simp add: powr_diff)
  have d: "double x = of_int r / s"
    using double_pos_form(1)[OF x] inv by (simp add: r_def s_def)
  have "(2::int) ^ 52 \<le> r" using double_pos_form(3)[OF x] by (simp add: r_def s_def)
  then have r: "(2::real) ^ 52 \<le> of_int r"
    by (metis of_int_le_iff of_int_numeral of_int_power)
  have "x * s \<le> of_int r + 1 / 2" unfolding r_def using rhe_err[of "x * s"] by linarith
  also have "\<dots> \<le> of_int r + of_int r / 2 ^ 53" using r by simp
  finally have "x * s \<le> of_int r * (1 + 1 / 2 ^ 53)" by (simp add: algebra_simps)
  then have "x \<le> of_int r * (1 + 1 / 2 ^ 53) / s" using s by (simp add: pos_le_divide_eq)
  then show ?thesis unfolding d by simp
qed

text \<open>A 53-bit integer times a power of two is a double.\<close>

lemma double_fix:
  assumes "2 ^ 52 \<le> \<bar>k\<bar>" "\<bar>k\<bar> < 2 ^ 53"
  shows "double (of_int k * 2 powr of_int e) = of_int k * 2 powr of_int e"
proof -
  define x where "x = (of_int k :: real) * 2 powr of_int e"
  have k0: "k \<noteq> 0" using assms(1) by auto
  have x0: "x \<noteq> 0" using k0 by (simp add: x_def)
  have ax: "\<bar>x\<bar> = of_int \<bar>k\<bar> * 2 powr of_int e" by (simp add: x_def abs_mult)
  have p52: "(2::real) powr of_int (52::int) = 2 ^ 52"
    using powr_realpow[of "2::real" 52] by simp
  have p53: "(2::real) powr of_int (53::int) = 2 ^ 53"
    using powr_realpow[of "2::real" 53] by simp
  have k1: "(2::real) ^ 52 \<le> of_int \<bar>k\<bar>"
    using assms(1) by (metis of_int_le_iff of_int_numeral of_int_power)
  have k2: "of_int \<bar>k\<bar> < (2::real) ^ 53"
    using assms(2) by (metis of_int_less_iff of_int_numeral of_int_power)
  have lo: "2 powr of_int (52 + e) \<le> \<bar>x\<bar>"
  proof -
    have "(2::real) powr of_int (52 + e) = 2 ^ 52 * 2 powr of_int e"
      using two_powr_int_add[of 52 e] p52 by simp
    then show ?thesis unfolding ax using k1 by simp
  qed
  have hi: "\<bar>x\<bar> < 2 powr (of_int (52 + e) + 1)"
  proof -
    have "of_int (52 + e) + (1::real) = of_int (53 + e)" by simp
    then have "(2::real) powr (of_int (52 + e) + 1) = 2 ^ 53 * 2 powr of_int e"
      using two_powr_int_add[of 53 e] p53 by simp
    then show ?thesis unfolding ax using k2 by simp
  qed
  have e: "\<lfloor>log 2 \<bar>x\<bar>\<rfloor> = 52 + e"
    using floor_log_eq_powr_iff[of "\<bar>x\<bar>" 2 "52 + e"] x0 lo hi by simp
  have "x * 2 powr of_int (- e) = of_int k"
    unfolding x_def by (simp add: powr_minus)
  then have "double x = of_int k * 2 powr of_int e"
    using x0 by (simp add: double_def e)
  then show ?thesis by (simp add: x_def)
qed

lemma double_idem_pos:
  assumes "0 < x"
  shows "double (double x) = double x"
proof -
  define e where "e = \<lfloor>log 2 x\<rfloor>"
  define r where "r = rhe (x * 2 powr of_int (52 - e))"
  have d: "double x = of_int r * 2 powr of_int (e - 52)"
    using double_pos_form(1)[OF assms] by (simp add: r_def e_def)
  have r1: "2 ^ 52 \<le> r" using double_pos_form(3)[OF assms] by (simp add: r_def e_def)
  have r2: "r \<le> 2 ^ 53" using double_pos_form(4)[OF assms] by (simp add: r_def e_def)
  show ?thesis
  proof (cases "r = 2 ^ 53")
    case True
    have "(2::real) powr of_int (e - 51) = 2 * 2 powr of_int (e - 52)"
      using two_powr_int_add[of 1 "e - 52"] by simp
    then have "double x = of_int ((2::int) ^ 52) * 2 powr of_int (e - 51)"
      unfolding d True by simp
    moreover have "double (of_int ((2::int) ^ 52) * 2 powr of_int (e - 51))
        = of_int ((2::int) ^ 52) * 2 powr of_int (e - 51)"
      by (rule double_fix) simp_all
    ultimately show ?thesis by simp
  next
    case False
    then have "\<bar>r\<bar> < 2 ^ 53" "2 ^ 52 \<le> \<bar>r\<bar>" using r1 r2 by simp_all
    then show ?thesis unfolding d by (intro double_fix)
  qed
qed

lemma double_idem [simp]: "double (double x) = double x"
proof -
  consider "0 < x" | "x = 0" | "0 < - x" by linarith
  then show ?thesis
  proof cases
    case 1
    then show ?thesis by (rule double_idem_pos)
  next
    case 2
    then show ?thesis by simp
  next
    case 3
    then have "double (double (- x)) = double (- x)" by (rule double_idem_pos)
    then show ?thesis by (simp add: double_minus)
  qed
qed

text \<open>Every integer of at most 53 bits is a double.\<close>

lemma double_of_int:
  assumes "0 \<le> n" "n < 2 ^ 53"
  shows "double (of_int n) = of_int n"
proof (cases "n = 0")
  case True
  then show ?thesis by simp
next
  case False
  then have n: "1 \<le> n" using assms by simp
  have "\<exists>c::nat. 2 ^ 52 \<le> n * 2 ^ c"
  proof
    have "(2::int) ^ 52 = 1 * 2 ^ 52" by simp
    also have "\<dots> \<le> n * 2 ^ 52" using n by (intro mult_right_mono) simp_all
    finally show "2 ^ 52 \<le> n * 2 ^ 52" .
  qed
  then obtain c :: nat where c: "2 ^ 52 \<le> n * 2 ^ c" "\<forall>c'<c. \<not> 2 ^ 52 \<le> n * 2 ^ c'"
    using exists_least_iff[of "\<lambda>c. 2 ^ 52 \<le> n * 2 ^ c"] by auto
  have up: "n * 2 ^ c < 2 ^ 53"
  proof (cases c)
    case 0
    then show ?thesis using assms by simp
  next
    case (Suc c')
    then have "\<not> 2 ^ 52 \<le> n * 2 ^ c'" using c(2) by simp
    then show ?thesis unfolding Suc by simp
  qed
  have a: "\<bar>of_int n :: real\<bar> * 2 ^ c = of_int (n * 2 ^ c)" using n by simp
  have lo': "(2::real) ^ 52 \<le> \<bar>of_int n\<bar> * 2 ^ c"
    unfolding a using c(1) by (metis of_int_le_iff of_int_numeral of_int_power)
  have hi': "\<bar>of_int n :: real\<bar> * 2 ^ c < 2 ^ 53"
    unfolding a using up by (metis of_int_less_iff of_int_numeral of_int_power)
  have "of_int n * (2::real) ^ c = of_int (n * 2 ^ c)" by simp
  then have "rhe (of_int n * 2 ^ c) = n * 2 ^ c" by (metis rhe_of_int)
  then show ?thesis using double_scaled[OF lo' hi'] by simp
qed

lemma double_one [simp]: "double 1 = 1"
  using double_of_int[of 1] by simp

section \<open>Properties of \<^verbatim>\<open>gen_random_sleeps\<close>\<close>

lemma length_fill_loop:
  "length (fst (fill_loop ev n is rem xs w)) = length xs"
  by (induction "is" arbitrary: rem xs w)
     (auto simp: Let_def uniform_def random_random_def split: prod.splits)

lemma length_shuffle_loop:
  "length (fst (shuffle_loop ev is x w)) = length x"
  by (induction "is" arbitrary: x w)
     (auto simp: randbelow_def random_random_def split: prod.splits)

lemma sum_list_update_real:
  fixes xs :: "real list"
  shows "k < length xs \<Longrightarrow> sum_list (xs[k := y]) = sum_list xs - xs ! k + y"
  by (induction xs arbitrary: k) (auto split: nat.splits)

lemma nth_le_sum_list:
  fixes xs :: "real list"
  shows "\<forall>x\<in>set xs. 0 \<le> x \<Longrightarrow> k < length xs \<Longrightarrow> xs ! k \<le> sum_list xs"
proof (induction xs arbitrary: k)
  case Nil
  then show ?case by simp
next
  case (Cons x xs)
  have s0: "0 \<le> sum_list xs" using Cons.prems(1) by (intro sum_list_nonneg) simp
  show ?case
  proof (cases k)
    case 0
    then show ?thesis using s0 by simp
  next
    case (Suc j)
    then have "xs ! j \<le> sum_list xs" using Cons by simp
    moreover have "0 \<le> x" using Cons.prems(1) by simp
    ultimately show ?thesis using Suc by simp
  qed
qed

text \<open>
  One round of the loop: the amount added is a float between zero and the remaining
  time.
\<close>

lemma fill_loop_step:
  assumes u: "0 \<le> draw ev (rng_pos w)" "draw ev (rng_pos w) < 1"
      and rem: "0 < rem" "double rem = rem"
      and i: "i < n"
  shows "\<exists>a. fill_loop ev n (i # rest) rem xs w
             = fill_loop ev n rest (double (rem - a)) (xs[nat i := double (xs ! nat i + a)])
                 (w\<lparr>rng_pos := Suc (rng_pos w)\<rparr>)
           \<and> 0 \<le> a \<and> a \<le> rem"
proof -
  define k where "k = double (real_of_int (n - i))"
  define M where "M = double (rem / k)"
  define a where "a = double (M * draw ev (rng_pos w))"
  have "double 1 \<le> k" unfolding k_def using i by (intro double_mono) simp
  then have k: "1 \<le> k" by simp
  have q: "0 \<le> rem / k" "rem / k \<le> rem"
    using k rem(1) by (simp_all add: divide_le_eq mult_le_cancel_left1)
  have M0: "0 \<le> M" unfolding M_def using q(1) by (rule double_nonneg)
  have "M \<le> double rem" unfolding M_def using q(2) by (rule double_mono)
  then have M1: "M \<le> rem" using rem(2) by simp
  have dM: "double M = M" by (simp add: M_def)
  have p: "0 \<le> M * draw ev (rng_pos w)" "M * draw ev (rng_pos w) \<le> M"
    using M0 u by (simp_all add: mult_left_le)
  have a0: "0 \<le> a" unfolding a_def using p(1) by (rule double_nonneg)
  have "a \<le> double M" unfolding a_def using p(2) by (rule double_mono)
  then have a1: "a \<le> rem" using dM M1 by simp
  have "fill_loop ev n (i # rest) rem xs w
       = fill_loop ev n rest (double (rem - a)) (xs[nat i := double (xs ! nat i + a)])
           (w\<lparr>rng_pos := Suc (rng_pos w)\<rparr>)"
    using rem(1) by (simp add: Let_def uniform_def random_random_def a_def M_def k_def)
  then show ?thesis using a0 a1 by blast
qed

lemma fill_loop_lower:
  assumes draws: "\<forall>k. 0 \<le> draw ev k \<and> draw ev k < 1" and m: "double m = m"
  shows "\<lbrakk>\<forall>i\<in>set is. i < n \<and> nat i < length xs; double rem = rem; \<forall>x\<in>set xs. m \<le> x\<rbrakk>
         \<Longrightarrow> \<forall>x\<in>set (fst (fill_loop ev n is rem xs w)). m \<le> x"
proof (induction "is" arbitrary: rem xs w)
  case Nil
  then show ?case by simp
next
  case (Cons i rest)
  show ?case
  proof (cases "rem \<le> 0")
    case True
    with Cons.prems show ?thesis by simp
  next
    case False
    have i: "i < n" "nat i < length xs" using Cons.prems(1) by auto
    have u: "0 \<le> draw ev (rng_pos w)" "draw ev (rng_pos w) < 1" using draws by simp_all
    have rp: "0 < rem" using False by simp
    obtain a where step: "fill_loop ev n (i # rest) rem xs w
         = fill_loop ev n rest (double (rem - a)) (xs[nat i := double (xs ! nat i + a)])
             (w\<lparr>rng_pos := Suc (rng_pos w)\<rparr>)"
      and a: "0 \<le> a" "a \<le> rem"
      using fill_loop_step[OF u rp Cons.prems(2) i(1), of rest xs] by blast
    define xs' where "xs' = xs[nat i := double (xs ! nat i + a)]"
    have "m \<le> xs ! nat i" using Cons.prems(3) i by simp
    then have "double m \<le> double (xs ! nat i + a)" using a by (intro double_mono) simp
    then have new: "m \<le> double (xs ! nat i + a)" using m by simp
    have p3: "\<forall>x\<in>set xs'. m \<le> x"
    proof
      fix x assume "x \<in> set xs'"
      then have "x \<in> insert (double (xs ! nat i + a)) (set xs)"
        unfolding xs'_def using set_update_subset_insert by fastforce
      then show "m \<le> x" using Cons.prems(3) new by auto
    qed
    have p1: "\<forall>i\<in>set rest. i < n \<and> nat i < length xs'"
      using Cons.prems(1) by (simp add: xs'_def)
    have "\<forall>x\<in>set (fst (fill_loop ev n rest (double (rem - a)) xs'
             (w\<lparr>rng_pos := Suc (rng_pos w)\<rparr>))). m \<le> x"
      using p1 _ p3 by (rule Cons.IH) simp
    then show ?thesis unfolding step xs'_def .
  qed
qed

lemma fill_loop_sum_factor:
  fixes d :: real
  assumes draws: "\<forall>k. 0 \<le> draw ev k \<and> draw ev k < 1"
      and d1: "1 \<le> d" and dl: "\<And>x. 0 \<le> x \<Longrightarrow> double x \<le> x * d"
  shows "\<lbrakk>\<forall>i\<in>set is. i < n \<and> nat i < length xs; 0 \<le> rem; double rem = rem;
          \<forall>x\<in>set xs. 0 \<le> x\<rbrakk>
         \<Longrightarrow> sum_list (fst (fill_loop ev n is rem xs w)) \<le> d ^ length is * (sum_list xs + rem)"
proof (induction "is" arbitrary: rem xs w)
  case Nil
  then show ?case by simp
next
  case (Cons i rest)
  have s0: "0 \<le> sum_list xs" using Cons.prems(4) by (intro sum_list_nonneg) simp
  show ?case
  proof (cases "rem \<le> 0")
    case True
    then have r: "rem = 0" using Cons.prems(2) by simp
    have "1 \<le> d ^ length (i # rest)" using d1 by (rule one_le_power)
    then have "1 * sum_list xs \<le> d ^ length (i # rest) * sum_list xs"
      using s0 by (intro mult_right_mono)
    then show ?thesis using r by simp
  next
    case False
    have i: "i < n" "nat i < length xs" using Cons.prems(1) by auto
    have u: "0 \<le> draw ev (rng_pos w)" "draw ev (rng_pos w) < 1" using draws by simp_all
    have rp: "0 < rem" using False by simp
    obtain a where step: "fill_loop ev n (i # rest) rem xs w
         = fill_loop ev n rest (double (rem - a)) (xs[nat i := double (xs ! nat i + a)])
             (w\<lparr>rng_pos := Suc (rng_pos w)\<rparr>)"
      and a: "0 \<le> a" "a \<le> rem"
      using fill_loop_step[OF u rp Cons.prems(3) i(1), of rest xs] by blast
    define y where "y = double (xs ! nat i + a)"
    define xs' where "xs' = xs[nat i := y]"
    define rem' where "rem' = double (rem - a)"
    have x0: "0 \<le> xs ! nat i" using Cons.prems(4) i by simp
    have x1: "xs ! nat i \<le> sum_list xs" using Cons.prems(4) i(2) by (rule nth_le_sum_list)
    have y0: "0 \<le> y" unfolding y_def using x0 a by (intro double_nonneg) simp
    have y1: "y \<le> (xs ! nat i + a) * d" unfolding y_def using x0 a by (intro dl) simp
    have r0: "0 \<le> rem'" unfolding rem'_def using a by (intro double_nonneg) simp
    have r1: "rem' \<le> (rem - a) * d" unfolding rem'_def using a by (intro dl) simp
    have s: "sum_list xs' = sum_list xs - xs ! nat i + y"
      unfolding xs'_def using i(2) by (rule sum_list_update_real)
    have "sum_list xs' + rem' \<le> sum_list xs - xs ! nat i + (xs ! nat i + a) * d + (rem - a) * d"
      unfolding s using y1 r1 by linarith
    also have "\<dots> = sum_list xs + xs ! nat i * (d - 1) + rem * d"
      by (simp add: algebra_simps)
    also have "\<dots> \<le> sum_list xs + sum_list xs * (d - 1) + rem * d"
      using x1 d1 by (simp add: mult_right_mono)
    also have "\<dots> = d * (sum_list xs + rem)" by (simp add: algebra_simps)
    finally have one: "sum_list xs' + rem' \<le> d * (sum_list xs + rem)" .
    have p1: "\<forall>i\<in>set rest. i < n \<and> nat i < length xs'"
      using Cons.prems(1) by (simp add: xs'_def)
    have p4: "\<forall>x\<in>set xs'. 0 \<le> x"
    proof
      fix x assume "x \<in> set xs'"
      then have "x \<in> insert y (set xs)"
        unfolding xs'_def using set_update_subset_insert by fastforce
      then show "0 \<le> x" using Cons.prems(4) y0 by auto
    qed
    have "sum_list (fst (fill_loop ev n rest rem' xs' (w\<lparr>rng_pos := Suc (rng_pos w)\<rparr>)))
            \<le> d ^ length rest * (sum_list xs' + rem')"
      using p1 r0 _ p4 by (rule Cons.IH) (simp add: rem'_def)
    also have "\<dots> \<le> d ^ length rest * (d * (sum_list xs + rem))"
      using one d1 by (intro mult_left_mono) simp_all
    finally show ?thesis unfolding step xs'_def y_def rem'_def
      by (simp add: mult.left_commute)
  qed
qed

lemma fill_loop_sum:
  assumes "\<forall>k. 0 \<le> draw ev k \<and> draw ev k < 1"
      and "\<forall>i\<in>set is. i < n \<and> nat i < length xs" "0 \<le> rem" "double rem = rem"
          "\<forall>x\<in>set xs. 0 \<le> x"
  shows "sum_list (fst (fill_loop ev n is rem xs w))
           \<le> (1 + 1 / 2 ^ 53) ^ length is * (sum_list xs + rem)"
proof -
  have "(1::real) \<le> 1 + 1 / 2 ^ 53" by simp
  with assms(1) show ?thesis using double_le assms(2-5) by (rule fill_loop_sum_factor)
qed

lemma randbelow_less:
  assumes "0 \<le> draw ev (rng_pos w)" "draw ev (rng_pos w) < 1" "0 < n"
  shows "fst (randbelow ev n w) < n"
proof -
  let ?u = "draw ev (rng_pos w)"
  have "?u * real n < real n" using assms by simp
  then have "\<lfloor>?u * real n\<rfloor> < int n" by (simp add: floor_less_iff)
  moreover have "0 \<le> \<lfloor>?u * real n\<rfloor>" using assms by simp
  ultimately have "nat \<lfloor>?u * real n\<rfloor> < n" by linarith
  then show ?thesis by (simp add: randbelow_def random_random_def)
qed

lemma mset_shuffle_loop:
  assumes draws: "\<forall>k. 0 \<le> draw ev k \<and> draw ev k < 1"
  shows "\<forall>i\<in>set is. i < length x \<Longrightarrow> mset (fst (shuffle_loop ev is x w)) = mset x"
proof (induction "is" arbitrary: x w)
  case Nil
  then show ?case by simp
next
  case (Cons i rest)
  obtain j w' where r: "randbelow ev (i + 1) w = (j, w')" by (cases "randbelow ev (i + 1) w")
  have "fst (randbelow ev (i + 1) w) < i + 1"
    using draws by (intro randbelow_less) auto
  then have j: "j \<le> i" using r by simp
  have i: "i < length x" using Cons.prems by simp
  have sw: "mset (x[i := x ! j, j := x ! i]) = mset x"
    using i j by (simp add: mset_swap)
  have "mset (fst (shuffle_loop ev rest (x[i := x ! j, j := x ! i]) w')) = mset (x[i := x ! j, j := x ! i])"
    using Cons.prems by (intro Cons.IH) simp
  then show ?case using r sw by simp
qed

lemma mset_shuffle:
  assumes "\<forall>k. 0 \<le> draw ev k \<and> draw ev k < 1"
  shows "mset (fst (shuffle ev x w)) = mset x"
  unfolding shuffle_def by (rule mset_shuffle_loop[OF assms]) simp

lemma shuffle_replicate:
  assumes "\<forall>k. 0 \<le> draw ev k \<and> draw ev k < 1"
  shows "fst (shuffle ev (replicate k v) w) = replicate k v"
proof -
  have m: "mset (fst (shuffle ev (replicate k v) w)) = mset (replicate k v)"
    using assms by (rule mset_shuffle)
  have "length (fst (shuffle ev (replicate k v) w)) = k"
    using mset_eq_length[OF m] by simp
  moreover have "\<And>y. y \<in> set (fst (shuffle ev (replicate k v) w)) \<Longrightarrow> y = v"
    using mset_eq_setD[OF m] by (auto split: if_splits)
  ultimately show ?thesis by (rule replicate_eqI)
qed

lemma fill_loop_no_time:
  "rem \<le> 0 \<Longrightarrow> fill_loop ev n is rem xs w = (xs, w)"
  by (cases "is") simp_all

text \<open>
  Claim C3, as amended. For float arguments (\<open>min_sleep\<close> and \<open>max_total_time\<close> are
  doubles), a request count \<open>0 \<le> n_requests < 2\<^sup>5\<^sup>3\<close> with
  \<open>n_requests * min_sleep \<le> max_total_time\<close>, and a random source whose numbers lie in
  \<open>[0, 1)\<close>, \<^verbatim>\<open>gen_random_sleeps\<close> returns a list (it does not raise) of exactly
  \<open>n_requests\<close> durations, each at least \<open>min_sleep\<close>. Their sum stays within rounding
  of the budget, not below it: for \<open>min_sleep \<ge> 0\<close> it is at most
  \<open>max_total_time * (1 + 2\<^sup>-\<^sup>5\<^sup>3) ^ (n_requests + 1)\<close>.
\<close>

theorem gen_random_sleeps_schedule:
  assumes draws: "\<forall>k. 0 \<le> draw ev k \<and> draw ev k < 1"
      and floats: "double min_sleep = min_sleep" "double max_total_time = max_total_time"
      and n: "0 \<le> n_requests" "n_requests < 2 ^ 53"
      and budget: "real_of_int n_requests * min_sleep \<le> max_total_time"
  shows "\<exists>xs w'. gen_random_sleeps ev min_sleep max_total_time n_requests w = (Inr xs, w')
           \<and> int (length xs) = n_requests
           \<and> (\<forall>x\<in>set xs. min_sleep \<le> x)
           \<and> (0 \<le> min_sleep \<longrightarrow>
                sum_list xs \<le> max_total_time * (1 + 1 / 2 ^ 53) ^ (length xs + 1))"
proof -
  define d :: real where "d = 1 + 1 / 2 ^ 53"
  define P where "P = double (real_of_int n_requests * min_sleep)"
  define rem where "rem = double (max_total_time - P)"
  define xs0 where "xs0 = replicate (nat n_requests) min_sleep"
  have dn: "double (real_of_int n_requests) = real_of_int n_requests"
    using n by (rule double_of_int)
  have "P \<le> double max_total_time" unfolding P_def using budget by (rule double_mono)
  then have guard: "P \<le> max_total_time" using floats(2) by simp
  have rem0: "0 \<le> rem" unfolding rem_def using guard by (intro double_nonneg) simp
  have drem: "double rem = rem" by (simp add: rem_def)
  obtain xs1 w1 where f: "fill_loop ev n_requests (py_range n_requests) rem xs0 w = (xs1, w1)"
    by (cases "fill_loop ev n_requests (py_range n_requests) rem xs0 w")
  obtain xs2 w2 where s: "shuffle ev xs1 w1 = (xs2, w2)" by (cases "shuffle ev xs1 w1")
  have len1: "length xs1 = nat n_requests"
    using length_fill_loop[of ev n_requests "py_range n_requests" rem xs0 w] f
    by (simp add: xs0_def)
  have idx: "\<forall>i\<in>set (py_range n_requests). i < n_requests \<and> nat i < length xs0"
    by (auto simp: py_range_def xs0_def)
  have "\<forall>x\<in>set (fst (fill_loop ev n_requests (py_range n_requests) rem xs0 w)). min_sleep \<le> x"
    using draws floats(1) idx drem by (rule fill_loop_lower) (simp add: xs0_def)
  then have b1: "\<forall>x\<in>set xs1. min_sleep \<le> x" using f by simp
  have m: "mset xs2 = mset xs1" using mset_shuffle[OF draws, of xs1 w1] s by simp
  have len2: "length xs2 = nat n_requests" using mset_eq_length[OF m] len1 by simp
  have b2: "\<forall>x\<in>set xs2. min_sleep \<le> x" using b1 mset_eq_setD[OF m] by simp
  have s2: "sum_list xs2 \<le> max_total_time * d ^ (length xs2 + 1)" if m0: "0 \<le> min_sleep"
  proof -
    have nm: "0 \<le> real_of_int n_requests * min_sleep" using n(1) m0 by simp
    have sum0: "sum_list xs0 = real_of_int n_requests * min_sleep"
      using n(1) by (simp add: xs0_def sum_list_replicate)
    have "sum_list (fst (fill_loop ev n_requests (py_range n_requests) rem xs0 w))
            \<le> (1 + 1 / 2 ^ 53) ^ length (py_range n_requests) * (sum_list xs0 + rem)"
      using draws idx rem0 drem by (rule fill_loop_sum) (simp add: xs0_def m0)
    then have a: "sum_list xs1 \<le> d ^ nat n_requests * (sum_list xs0 + rem)"
      unfolding d_def using f by (simp add: py_range_def)
    have "rem \<le> (max_total_time - P) * (1 + 1 / 2 ^ 53)"
      unfolding rem_def using guard by (intro double_le) simp
    then have r: "rem \<le> (max_total_time - P) * d" by (simp only: d_def)
    have "real_of_int n_requests * min_sleep \<le> P * (1 + 1 / 2 ^ 53)"
      unfolding P_def using nm by (rule le_double)
    then have p: "sum_list xs0 \<le> P * d" by (simp only: d_def sum0)
    have "sum_list xs0 + rem \<le> max_total_time * d"
      using r p by (simp add: algebra_simps)
    moreover have "0 \<le> d ^ nat n_requests" by (simp add: d_def)
    ultimately have "d ^ nat n_requests * (sum_list xs0 + rem)
                 \<le> d ^ nat n_requests * (max_total_time * d)"
      by (rule mult_left_mono)
    then have "sum_list xs1 \<le> max_total_time * d ^ (nat n_requests + 1)"
      using a by (simp add: mult.assoc mult.left_commute mult.commute)
    moreover have "sum_list xs2 = sum_list xs1" using m by (metis sum_mset_sum_list)
    ultimately show ?thesis using len2 by simp
  qed
  have "gen_random_sleeps ev min_sleep max_total_time n_requests w = (Inr xs2, w2)"
    using guard f s len1 n(1) dn
    by (simp add: gen_random_sleeps_def Let_def P_def[symmetric] rem_def[symmetric]
          xs0_def[symmetric])
  moreover have "int (length xs2) = n_requests" using len2 n(1) by simp
  ultimately show ?thesis using b2 s2 unfolding d_def by blast
qed


theorem gen_random_sleeps_schedule_witness:
  "(\<forall>k. 0 \<le> draw quiet_env k \<and> draw quiet_env k < 1) \<and> double 2 = 2 \<and> double 8 = 8
   \<and> (0::int) \<le> 3 \<and> (3::int) < 2 ^ 53 \<and> real_of_int 3 * (2::real) \<le> 8
   \<and> (\<exists>xs w'. gen_random_sleeps quiet_env 2 8 3 empty_store = (Inr xs, w')
          \<and> int (length xs) = 3 \<and> (\<forall>x\<in>set xs. 2 \<le> x)
          \<and> sum_list xs \<le> 8 * (1 + 1 / 2 ^ 53) ^ (length xs + 1))"
proof -
  have d2: "double 2 = 2" using double_of_int[of 2] by simp
  have d8: "double 8 = 8" using double_of_int[of 8] by simp
  have dr: "\<forall>k. 0 \<le> draw quiet_env k \<and> draw quiet_env k < 1" by (simp add: quiet_env_def)
  have "\<exists>xs w'. gen_random_sleeps quiet_env 2 8 3 empty_store = (Inr xs, w')
          \<and> int (length xs) = 3 \<and> (\<forall>x\<in>set xs. 2 \<le> x)
          \<and> (0 \<le> (2::real) \<longrightarrow> sum_list xs \<le> 8 * (1 + 1 / 2 ^ 53) ^ (length xs + 1))"
    by (rule gen_random_sleeps_schedule[OF dr d2 d8]) simp_all
  then show ?thesis using d2 d8 dr by simp
qed

text \<open>
  Claim C3 as stated fails where it bounds the sum by the budget: every addition and
  subtraction of the loop is rounded, and the roundings can add up. For
  \<open>min_sleep = 1\<close>, \<open>max_total_time = 8\<close>, three requests and the random numbers
  \<open>1/2\<close>, \<open>1/2\<close> and \<open>1 - 2\<^sup>-\<^sup>5\<^sup>3\<close>, the durations are the doubles
  \<^verbatim>\<open>1.8333333333333335\<close>, \<^verbatim>\<open>2.041666666666667\<close> and \<^verbatim>\<open>4.125\<close>, whose sum exceeds
  \<open>8\<close> by \<open>2\<^sup>-\<^sup>5\<^sup>1\<close>.
\<close>

theorem gen_random_sleeps_exceeds_budget:
  "(\<forall>k. 0 \<le> draw late_draw_env k \<and> draw late_draw_env k < 1)
   \<and> real_of_int 3 * (1::real) \<le> 8
   \<and> fst (gen_random_sleeps late_draw_env 1 8 3 empty_store)
       = Inr [4128299658422955 / 2251799813685248, 33 / 8,
              2298712309803691 / 1125899906842624]
   \<and> (8::real) < sum_list [4128299658422955 / 2251799813685248, 33 / 8,
                            2298712309803691 / 1125899906842624]"
proof -
  have d0: "double (3) = 3"
    using double_eval[where x = "3" and c = 51 and k = 6755399441055744] by simp
  have d1: "double (5) = 5"
    using double_eval[where x = "5" and c = 50 and k = 5629499534213120] by simp
  have d2: "double (5 / 3) = 7505999378950827 / 4503599627370496"
    using double_eval[where x = "5 / 3" and c = 52 and k = 7505999378950827] by simp
  have d3: "double (7505999378950827 / 4503599627370496) = 7505999378950827 / 4503599627370496"
    using double_eval[where x = "7505999378950827 / 4503599627370496" and c = 52 and k = 7505999378950827] by simp
  have d4: "double (7505999378950827 / 9007199254740992) = 7505999378950827 / 9007199254740992"
    using double_eval[where x = "7505999378950827 / 9007199254740992" and c = 53 and k = 7505999378950827] by simp
  have d5: "double (16513198633691819 / 9007199254740992) = 4128299658422955 / 2251799813685248"
    using double_eval_tie_up[where x = "16513198633691819 / 9007199254740992" and c = 52 and k = 8256599316845910] by simp
  have d6: "double (37529996894754133 / 9007199254740992) = 4691249611844267 / 1125899906842624"
    using double_eval[where x = "37529996894754133 / 9007199254740992" and c = 50 and k = 4691249611844267] by simp
  have d7: "double (2) = 2"
    using double_eval[where x = "2" and c = 51 and k = 4503599627370496] by simp
  have d8: "double (4691249611844267 / 2251799813685248) = 4691249611844267 / 2251799813685248"
    using double_eval[where x = "4691249611844267 / 2251799813685248" and c = 51 and k = 4691249611844267] by simp
  have d9: "double (4691249611844267 / 4503599627370496) = 4691249611844267 / 4503599627370496"
    using double_eval[where x = "4691249611844267 / 4503599627370496" and c = 52 and k = 4691249611844267] by simp
  have d10: "double (9194849239214763 / 4503599627370496) = 2298712309803691 / 1125899906842624"
    using double_eval_tie_up[where x = "9194849239214763 / 4503599627370496" and c = 51 and k = 4597424619607382] by simp
  have d11: "double (14073748835532801 / 4503599627370496) = 25 / 8"
    using double_eval_tie[where x = "14073748835532801 / 4503599627370496" and c = 51 and k = 7036874417766400] by simp
  have d12: "double (1) = 1"
    using double_eval[where x = "1" and c = 52 and k = 4503599627370496] by simp
  have d13: "double (25 / 8) = 25 / 8"
    using double_eval[where x = "25 / 8" and c = 51 and k = 7036874417766400] by simp
  have d14: "double (225179981368524775 / 72057594037927936) = 7036874417766399 / 2251799813685248"
    using double_eval[where x = "225179981368524775 / 72057594037927936" and c = 51 and k = 7036874417766399] by simp
  have d15: "double (7036874417766399 / 2251799813685248) = 7036874417766399 / 2251799813685248"
    using double_eval[where x = "7036874417766399 / 2251799813685248" and c = 51 and k = 7036874417766399] by simp
  have d16: "double (9288674231451647 / 2251799813685248) = 33 / 8"
    using double_eval_tie_up[where x = "9288674231451647 / 2251799813685248" and c = 50 and k = 4644337115725824] by simp
  have d17: "double (1 / 2251799813685248) = 1 / 2251799813685248"
    using double_eval[where x = "1 / 2251799813685248" and c = 103 and k = 4503599627370496] by simp
  have r: "py_range 3 = [0, 1, 2]" by (simp add: py_range_def upt_rec)
  have dr: "\<forall>k. 0 \<le> draw late_draw_env k \<and> draw late_draw_env k < 1"
    by (simp add: late_draw_env_def quiet_env_def)
  have run: "fst (gen_random_sleeps late_draw_env 1 8 3 empty_store)
       = Inr [4128299658422955 / 2251799813685248, 33 / 8,
              2298712309803691 / 1125899906842624]"
    by (simp add: gen_random_sleeps_def r uniform_def random_random_def shuffle_def
          randbelow_def late_draw_env_def quiet_env_def empty_store_def numeral_3_eq_3
          d0 d1 d2 d3 d4 d5 d6 d7 d8 d9 d10 d11 d12 d13 d14 d15 d16 d17)
  show ?thesis using dr run by simp
qed

text \<open>
  Claim C4, as amended. When the product \<open>n_requests * min_sleep\<close> as the budget test
  computes it, the float product of the converted count and \<open>min_sleep\<close>, exceeds
  \<open>max_total_time\<close>, \<^verbatim>\<open>gen_random_sleeps\<close> raises the \<^verbatim>\<open>ValueError\<close> of the budget
  check and produces no schedule. Its only effect is the error line it logs: no random
  number is drawn, no file is touched, no network call and no wait is made.
\<close>

theorem gen_random_sleeps_invalid_budget:
  assumes "max_total_time < double (double (real_of_int n_requests) * min_sleep)"
  shows "fst (gen_random_sleeps ev min_sleep max_total_time n_requests w)
           = Inl (ValueError budget_msg)
         \<and> snd (gen_random_sleeps ev min_sleep max_total_time n_requests w)
           = w\<lparr>trace := trace w @ [Log ERROR budget_msg]\<rparr>
         \<and> fetched (trace (snd (gen_random_sleeps ev min_sleep max_total_time n_requests w)))
           = fetched (trace w)
         \<and> sleeps (trace (snd (gen_random_sleeps ev min_sleep max_total_time n_requests w)))
           = sleeps (trace w)"
  using assms
  by (simp add: gen_random_sleeps_def logging_def emit_def fetched_def sleeps_def)

theorem gen_random_sleeps_invalid_budget_witness:
  "(8::real) < double (double (real_of_int 5) * 2)
   \<and> fst (gen_random_sleeps quiet_env 2 8 5 empty_store) = Inl (ValueError budget_msg)
   \<and> snd (gen_random_sleeps quiet_env 2 8 5 empty_store)
       = \<lparr>trace = [Log ERROR budget_msg], dir_exists = True, files = [], rng_pos = 0\<rparr>"
proof -
  have d5: "double 5 = 5" using double_of_int[of 5] by simp
  have d10: "double 10 = 10" using double_of_int[of 10] by simp
  have g: "(8::real) < double (double (real_of_int 5) * 2)" by (simp add: d5 d10)
  show ?thesis
    using gen_random_sleeps_invalid_budget[OF g, of quiet_env empty_store] g
    by (simp add: empty_store_def)
qed

text \<open>
  Claim C4 as stated fails for the exact product: the budget test compares the rounded
  product. For \<open>min_sleep\<close> the double \<^verbatim>\<open>0.1\<close>, \<open>max_total_time = 1\<close> and ten
  requests, the exact product exceeds \<open>1\<close>, the float product is \<open>1\<close>, and a schedule
  of ten times \<^verbatim>\<open>0.1\<close> is returned.
\<close>

theorem budget_test_rounds_product:
  "1 < real_of_int 10 * tenth
   \<and> fst (gen_random_sleeps quiet_env tenth 1 10 empty_store) = Inr (replicate 10 tenth)"
proof -
  have d10: "double 10 = 10" using double_of_int[of 10] by simp
  have p: "double (10 * tenth) = 1"
    using double_eval[where x = "10 * tenth" and c = 52 and k = "2 ^ 52"]
    by (simp add: tenth_def)
  have dr: "\<forall>k. 0 \<le> draw quiet_env k \<and> draw quiet_env k < 1" by (simp add: quiet_env_def)
  have "fst (gen_random_sleeps quiet_env tenth 1 10 empty_store)
          = Inr (fst (shuffle quiet_env (replicate 10 tenth) empty_store))"
    by (simp add: gen_random_sleeps_def d10 p fill_loop_no_time split: prod.splits)
  then have "fst (gen_random_sleeps quiet_env tenth 1 10 empty_store) = Inr (replicate 10 tenth)"
    using shuffle_replicate[OF dr] by simp
  moreover have "1 < real_of_int 10 * tenth" by (simp add: tenth_def)
  ultimately show ?thesis by simp
qed

section \<open>Facts about the concrete scenarios\<close>

lemma quiet_env_simps [simp]:
  "unquote quiet_env = (\<lambda>s. s)" "quote quiet_env = (\<lambda>s. s)"
  "network quiet_env = (\<lambda>t u. Response ok_response)"
  "open_fails quiet_env = (\<lambda>t f. False)"
  by (simp_all add: quiet_env_def)

lemma env_where_simps [simp]:
  "unquote (env_where url res) = (\<lambda>s. s)" "quote (env_where url res) = (\<lambda>s. s)"
  "network (env_where url res) = (\<lambda>t u. if u = url then res else Response ok_response)"
  "open_fails (env_where url res) = (\<lambda>t f. False)"
  by (simp_all add: env_where_def quiet_env_def)

lemma empty_store_simps [simp]:
  "dir_exists empty_store" "trace empty_store = []" "files empty_store = []"
  "skip_sites_of empty_store = []"
  by (simp_all add: empty_store_def skip_sites_of_def listdir_def)

lemma goes_on_ok [simp]: "goes_on (Response ok_response)"
  by (simp add: ok_response_def)

lemma goes_on_rate_limited [simp]: "goes_on (Response rate_limited)"
  by (simp add: rate_limited_def)

lemma target_inject [simp]: "(target a = target b) = (a = b)"
  by (simp add: target_def)

lemmas run_defs = scrape_sites_def scrape_step_def issue_request_def finally_cleanup_def
  process_response_def save_source_code_def save_path_def ensure_dir_def
  path_exists_def listdir_def skip_sites_of_def unquoted_name_def session_get_def
  requests_get_def write_file_def now_def time_sleep_def logging_def emit_def Let_def
  error_result_def

section \<open>Rate limiting: \<^verbatim>\<open>process_response\<close> and the \<^verbatim>\<open>break\<close> of \<^verbatim>\<open>scrape_sites\<close>\<close>

text \<open>
  Claim C1 says that a response with status 429 is classified \<^verbatim>\<open>break\<close> and ends the
  batch. The code calls \<^verbatim>\<open>response.raise_for_status()\<close> before it compares the status
  with 429, and for a response of the \<^verbatim>\<open>requests\<close> library that call raises
  \<open>HTTPError\<close> for every status from 400 to 599. So such a response is classified
  \<^verbatim>\<open>error\<close> like any other HTTP error, and the loop goes on: after the request the
  step asks for the next target, the result is yielded, the session stays open.
\<close>

theorem rate_limit_classified_as_error:
  "requests_response rate_limited \<and> status_code rate_limited = 429
   \<and> process_response ev rate_limited st slp w
       = (error_result st slp, logging ERROR (''HTTP error occurred while scraping '' @ st) w)
   \<and> scrape_step (env_where (target ''1'') (Response rate_limited)) [] 30 (target ''1'') 1
        None empty_store
       = (Some (error_result (target ''1'') 1), Next, Some Session,
          \<lparr>trace = [SessionNew, SessionGet (target ''1''),
                    Log ERROR (''HTTP error occurred while scraping '' @ target ''1''),
                    Log DEBUG (''Processed response from '' @ target ''1'')],
           dir_exists = True, files = [], rng_pos = 0\<rparr>)"
  by (simp add: requests_response_def rate_limited_def process_response_def
      scrape_step_def unquoted_name_def issue_request_def session_get_def now_def
      finally_cleanup_def Let_def empty_store_def emit_def logging_def target_def
      error_result_def)

text \<open>
  Claim C2, as amended. The loop leaves by \<^verbatim>\<open>break\<close> before the \<^verbatim>\<open>yield\<close>, so a
  result classified \<^verbatim>\<open>break\<close> is never yielded. For a batch of five targets, the
  first three not in the resume set, where the requests for targets 1 and 2 are
  answered by anything but a \<^verbatim>\<open>break\<close> response (a response of another
  classification, or a requests exception) and the request for target 3 is answered by
  a response with status 429 whose \<^verbatim>\<open>raise_for_status()\<close> returns: exactly two results
  are yielded, those of targets 1 and 2; exactly three network calls are made, for
  targets 1 to 3 and none for targets 4 and 5; the generator returns with no session
  left open.
\<close>

theorem hard_stop_short_circuits:
  assumes "dir_exists w"
      and "unquoted_name ev s1 \<notin> set (skip_sites_of w)"
      and "unquoted_name ev s2 \<notin> set (skip_sites_of w)"
      and "unquoted_name ev s3 \<notin> set (skip_sites_of w)"
      and "\<forall>t. goes_on (network ev t (quote ev s1))"
      and "\<forall>t. goes_on (network ev t (quote ev s2))"
      and "\<forall>t. \<exists>r. network ev t (quote ev s3) = Response r
              \<and> raise_for_status r = None \<and> status_code r = 429"
  shows "\<exists>ys w' evs.
           scrape_sites ev [s1, s2, s3, s4, s5] [d1, d2, d3, d4, d5] msi w = (ys, Returned, w')
         \<and> length ys = 2 \<and> map site ys = [s1, s2]
         \<and> trace w' = trace w @ evs
         \<and> fetched evs = [quote ev s1, quote ev s2, quote ev s3]
         \<and> live evs = 0"
proof -
  let ?skip = "skip_sites_of w"
  let ?pre = "[(s1, d1), (s2, d2)]"
  let ?post = "[(s4, d4), (s5, d5)]"
  have a: "\<forall>s\<in>set (map fst ?pre). \<forall>t. goes_on (network ev t (quote ev s))"
    using assms(5,6) by simp
  from scrape_loop_break[OF a assms(4,7), of msi d3 ?post None w]
  obtain ys evs sess' w1 where l:
      "scrape_loop ev ?skip msi (?pre @ (s3, d3) # ?post) None w = (ys, Break, sess', w1)"
      "map site ys = to_fetch ev ?skip ?pre" "trace w1 = trace w @ evs"
      "fetched evs = map (quote ev) (to_fetch ev ?skip ?pre) @ [quote ev s3]"
      "live_of None + live evs = live_of sess'"
    by blast
  have tf: "to_fetch ev ?skip ?pre = [s1, s2]" using assms(2,3) by (simp add: to_fetch_def)
  let ?cl = "if sess' \<noteq> None then [SessionClose] else []"
  let ?w' = "if sess' \<noteq> None then emit SessionClose w1 else w1"
  have "scrape_sites ev [s1, s2, s3, s4, s5] [d1, d2, d3, d4, d5] msi w = (ys, Returned, ?w')"
    using assms(1) l(1) by (simp add: scrape_sites_def Let_def)
  moreover have "map site ys = [s1, s2]" using l(2) tf by simp
  moreover from this have "length ys = 2" using length_map[of site ys] by simp
  moreover have "trace ?w' = trace w @ (evs @ ?cl)" using l(3) by simp
  moreover have "fetched (evs @ ?cl) = [quote ev s1, quote ev s2, quote ev s3]"
    using l(4) tf by simp
  moreover have "live (evs @ ?cl) = 0" using l(5) by (auto simp: live_of_def)
  ultimately show ?thesis
    by (intro exI[of _ ys] exI[of _ ?w'] exI[of _ "evs @ ?cl"]) simp
qed

theorem hard_stop_short_circuits_witness:
  "dir_exists empty_store
   \<and> unquoted_name (env_where (target ''3'') (Response simulated_429)) (target ''1'')
        \<notin> set (skip_sites_of empty_store)
   \<and> (\<forall>t. goes_on (network (env_where (target ''3'') (Response simulated_429)) t
                (quote (env_where (target ''3'') (Response simulated_429)) (target ''1''))))
   \<and> (\<forall>t. \<exists>r. network (env_where (target ''3'') (Response simulated_429)) t
                (quote (env_where (target ''3'') (Response simulated_429)) (target ''3''))
               = Response r \<and> raise_for_status r = None \<and> status_code r = 429)
   \<and> (\<exists>ys w' evs.
          scrape_sites (env_where (target ''3'') (Response simulated_429))
            [target ''1'', target ''2'', target ''3'', target ''4'', target ''5'']
            [1, 1, 40, 1, 1] 30 empty_store = (ys, Returned, w')
        \<and> length ys = 2 \<and> map site ys = [target ''1'', target ''2'']
        \<and> trace w' = trace empty_store @ evs
        \<and> fetched evs = [target ''1'', target ''2'', target ''3'']
        \<and> live evs = 0)"
  using hard_stop_short_circuits[of empty_store "env_where (target ''3'') (Response simulated_429)"
      "target ''1''" "target ''2''" "target ''3''" "target ''4''" "target ''5''" 1 1 40 1 1 30]
  by (simp add: simulated_429_def ok_response_def)

text \<open>
  Claim C2 as stated fails. With a 429 response of the \<^verbatim>\<open>requests\<close> library for
  target 3, all five targets are requested and five results are yielded. With a
  simulated 429 response whose \<^verbatim>\<open>raise_for_status()\<close> returns, two results are
  yielded, not three.
\<close>

theorem hard_stop_counterexample:
  "length (fst (scrape_sites (env_where (target ''3'') (Response rate_limited)) five_sites
                  [1, 1, 1, 1, 1] 30 empty_store)) = 5
   \<and> fetched (trace (snd (snd (scrape_sites (env_where (target ''3'') (Response rate_limited))
                  five_sites [1, 1, 1, 1, 1] 30 empty_store)))) = five_sites
   \<and> length (fst (scrape_sites (env_where (target ''3'') (Response simulated_429)) five_sites
                  [1, 1, 1, 1, 1] 30 empty_store)) = 2"
proof -
  let ?ev = "env_where (target ''3'') (Response rate_limited)"
  let ?sv = "env_where (target ''3'') (Response simulated_429)"
  let ?ts = "[1, 1, 1, 1, 1] :: real list"
  have tf: "\<And>ev. unquote ev = (\<lambda>s. s) \<Longrightarrow> to_fetch ev [] (zip five_sites ?ts) = five_sites"
    by (simp add: to_fetch_def five_sites_def)
  have "\<forall>s\<in>set five_sites. \<forall>t. goes_on (network ?ev t (quote ?ev s))"
    by (simp add: rate_limited_def ok_response_def)
  from scrape_sites_goes_on[OF empty_store_simps(1) this, of ?ts 30]
  obtain ys w' evs where r: "scrape_sites ?ev five_sites ?ts 30 empty_store = (ys, Returned, w')"
      "trace w' = trace empty_store @ evs"
      "fetched evs = map (quote ?ev) (to_fetch ?ev (skip_sites_of empty_store) (zip five_sites ?ts))"
      "map site ys = to_fetch ?ev (skip_sites_of empty_store) (zip five_sites ?ts)"
    by blast
  have "map site ys = five_sites" using r(4) by (simp add: tf)
  then have "length ys = 5" using length_map[of site ys] by (simp add: five_sites_def)
  moreover have "fetched (trace w') = five_sites" using r(2,3) by (simp add: tf)
  moreover have "length (fst (scrape_sites ?sv five_sites ?ts 30 empty_store)) = 2"
  proof -
    have a: "\<forall>s\<in>set (map fst [(target ''1'', 1::real), (target ''2'', 1)]).
               \<forall>t. goes_on (network ?sv t (quote ?sv s))"
      by (simp add: ok_response_def)
    have b: "unquoted_name ?sv (target ''3'') \<notin> set []" by simp
    have c: "\<forall>t. \<exists>r. network ?sv t (quote ?sv (target ''3'')) = Response r
              \<and> raise_for_status r = None \<and> status_code r = 429"
      by (simp add: simulated_429_def)
    from scrape_loop_break[OF a b c, of 30 1 "[(target ''4'', 1), (target ''5'', 1)]" None empty_store]
    obtain ys2 sess2 w2 where l: "scrape_loop ?sv [] 30
          ([(target ''1'', 1), (target ''2'', 1)] @ (target ''3'', 1) # [(target ''4'', 1), (target ''5'', 1)])
          None empty_store = (ys2, Break, sess2, w2)"
        "map site ys2 = to_fetch ?sv [] [(target ''1'', 1), (target ''2'', 1)]"
      by blast
    have "length ys2 = 2" using l(2) length_map[of site ys2] by (simp add: to_fetch_def)
    then show ?thesis using l(1)
      by (simp add: scrape_sites_def five_sites_def Let_def)
  qed
  ultimately show ?thesis using r(1) by simp
qed

section \<open>The politeness delay and the saved page\<close>

lemma scrape_step_request_exception:
  assumes "unquoted_name ev st \<notin> set skip"
      and "\<forall>t. network ev t (quote ev st) = Raises (RequestException e)"
  shows "\<exists>sess' w'. scrape_step ev skip msi st slp sess w
                       = (Some (error_result st slp), Next, sess', w')
           \<and> sleeps (trace w') = sleeps (trace w)"
  using assms
  by (simp add: scrape_step_def issue_request_eq finally_cleanup_noop Let_def
      conn_events_def get_event_def)

lemma scrape_step_response:
  assumes "unquoted_name ev st \<notin> set skip"
      and "\<forall>t. network ev t (quote ev st) = Response r"
      and "raise_for_status r = None" "status_code r \<noteq> 429"
  shows "\<exists>sess' w'. scrape_step ev skip msi st slp sess w
                       = (Some (scrape_result st slp), Next, sess', w')"
proof -
  from scrape_step_not_skipped[OF assms(1), of msi slp sess w] assms(2,3,4)
  show ?thesis by auto
qed

text \<open>
  Claim C5. On a successful status (\<^verbatim>\<open>raise_for_status()\<close> returns and the status is
  not 429; for a response of the \<^verbatim>\<open>requests\<close> library, a status outside 400 to 599)
  \<^verbatim>\<open>process_response\<close> waits exactly the assigned delay, and this wait is the first
  thing it does, before the page is parsed and saved; no other wait follows; it returns
  \<^verbatim>\<open>scrape\<close> with \<open>scraped = True\<close>. On an HTTP error status
  (\<^verbatim>\<open>raise_for_status()\<close> raises) it returns \<^verbatim>\<open>error\<close> with \<open>scraped = False\<close> and
  makes no wait. When the request itself raises a requests exception (a transport
  error), the loop body yields \<^verbatim>\<open>error\<close> with \<open>scraped = False\<close> and makes no wait.
\<close>

theorem delay_charged_on_success_only:
  "(raise_for_status r = None \<and> status_code r \<noteq> 429 \<longrightarrow>
      fst (process_response ev r st slp w)
        = \<lparr>action = ''scrape'', site = st, sleep_time = slp, scraped = True\<rparr>
      \<and> (\<exists>evs. trace (snd (process_response ev r st slp w)) = trace w @ Sleep slp # evs
                \<and> sleeps evs = []))
   \<and> (raise_for_status r \<noteq> None \<longrightarrow>
      fst (process_response ev r st slp w)
        = \<lparr>action = ''error'', site = st, sleep_time = slp, scraped = False\<rparr>
      \<and> sleeps (trace (snd (process_response ev r st slp w))) = sleeps (trace w))
   \<and> (unquoted_name ev st \<notin> set skip
       \<and> (\<forall>t. network ev t (quote ev st) = Raises (RequestException e)) \<longrightarrow>
      (\<exists>sess' w'. scrape_step ev skip msi st slp sess w
           = (Some \<lparr>action = ''error'', site = st, sleep_time = slp, scraped = False\<rparr>,
              Next, sess', w')
         \<and> sleeps (trace w') = sleeps (trace w)))"
proof (intro conjI impI)
  assume ok: "raise_for_status r = None \<and> status_code r \<noteq> 429"
  then show "fst (process_response ev r st slp w)
        = \<lparr>action = ''scrape'', site = st, sleep_time = slp, scraped = True\<rparr>"
    by (simp add: process_response_success)
  obtain evs where "trace (save_source_code ev (BeautifulSoup (body_text r)) st (time_sleep slp w))
      = trace (time_sleep slp w) @ evs" "sleeps evs = []"
    using save_source_code_quiet by blast
  then show "\<exists>evs. trace (snd (process_response ev r st slp w)) = trace w @ Sleep slp # evs
                \<and> sleeps evs = []"
    using ok by (simp add: process_response_success)
next
  assume "raise_for_status r \<noteq> None"
  then show "fst (process_response ev r st slp w)
        = \<lparr>action = ''error'', site = st, sleep_time = slp, scraped = False\<rparr>"
    and "sleeps (trace (snd (process_response ev r st slp w))) = sleeps (trace w)"
    by (auto simp: process_response_def error_result_def)
next
  assume "unquoted_name ev st \<notin> set skip
       \<and> (\<forall>t. network ev t (quote ev st) = Raises (RequestException e))"
  then show "\<exists>sess' w'. scrape_step ev skip msi st slp sess w
           = (Some \<lparr>action = ''error'', site = st, sleep_time = slp, scraped = False\<rparr>,
              Next, sess', w')
         \<and> sleeps (trace w') = sleeps (trace w)"
    using scrape_step_request_exception[of ev st skip e msi slp sess w]
    by (simp add: error_result_def)
qed

theorem delay_charged_on_success_only_witness:
  "(raise_for_status ok_response = None \<and> status_code ok_response \<noteq> 429)
   \<and> process_response quiet_env ok_response (target ''1'') 5 empty_store
      = (\<lparr>action = ''scrape'', site = target ''1'', sleep_time = 5, scraped = True\<rparr>,
         \<lparr>trace = [Sleep 5, FileWrite ''1.html'' ''<p>''], dir_exists = True,
          files = [(''1.html'', ''<p>'')], rng_pos = 0\<rparr>)
   \<and> raise_for_status not_found \<noteq> None
   \<and> fst (process_response quiet_env not_found (target ''1'') 5 empty_store)
      = \<lparr>action = ''error'', site = target ''1'', sleep_time = 5, scraped = False\<rparr>
   \<and> sleeps (trace (snd (process_response quiet_env not_found (target ''1'') 5 empty_store))) = []
   \<and> unquoted_name (env_where (target ''1'') (Raises (RequestException Timeout))) (target ''1'')
        \<notin> set []
   \<and> (\<forall>t. network (env_where (target ''1'') (Raises (RequestException Timeout))) t
               (quote (env_where (target ''1'') (Raises (RequestException Timeout))) (target ''1''))
             = Raises (RequestException Timeout))
   \<and> (\<exists>sess' w'. scrape_step (env_where (target ''1'') (Raises (RequestException Timeout))) []
                     30 (target ''1'') 5 None empty_store
           = (Some \<lparr>action = ''error'', site = target ''1'', sleep_time = 5, scraped = False\<rparr>,
              Next, sess', w')
         \<and> sleeps (trace w') = sleeps (trace empty_store))"
  using delay_charged_on_success_only[of ok_response quiet_env "target ''1''" 5 empty_store]
    delay_charged_on_success_only[of not_found quiet_env "target ''1''" 5 empty_store]
    delay_charged_on_success_only[where r = not_found
      and ev = "env_where (target ''1'') (Raises (RequestException Timeout))"
      and st = "target ''1''" and skip = "[]" and e = Timeout and slp = 5 and w = empty_store
      and msi = 30 and sess = None]
  by (simp add: ok_response_def not_found_def process_response_def save_source_code_def
      save_path_def unquoted_name_def path_exists_def listdir_def write_file_def now_def
      Let_def target_def empty_store_def emit_def time_sleep_def quiet_env_def)

text \<open>
  Claim C8, as amended. When a file of the target's name (the decoded segment with
  \<^verbatim>\<open>.html\<close>) exists already, \<^verbatim>\<open>save_source_code\<close> opens another name, the existing
  name followed by \<^verbatim>\<open>_<timestamp>.html\<close>, which differs from the existing one. The
  existing file keeps its content and is still there; no file but the one of the
  suffixed name changes, so that every file of the store keeps its content when none
  has the suffixed name; and when the open succeeds, the suffixed file holds the new
  page and the write is the only event. The suffixed name is opened for writing like
  any other name: a file that has it already is overwritten, and nothing is logged.
\<close>

theorem save_source_code_keeps_existing_file:
  assumes "path_exists (unquoted_name ev st @ ''.html'') w"
  shows "save_path ev st w
           = (unquoted_name ev st @ ''.html'') @ ''_'' @ clock ev (now w) @ ''.html''
       \<and> save_path ev st w \<noteq> unquoted_name ev st @ ''.html''
       \<and> map_of (files (save_source_code ev sp st w)) (unquoted_name ev st @ ''.html'')
           = map_of (files w) (unquoted_name ev st @ ''.html'')
       \<and> path_exists (unquoted_name ev st @ ''.html'') (save_source_code ev sp st w)
       \<and> (\<forall>g. g \<noteq> save_path ev st w \<longrightarrow>
             map_of (files (save_source_code ev sp st w)) g = map_of (files w) g)
       \<and> (save_path ev st w \<notin> set (listdir w) \<longrightarrow>
             (\<forall>g\<in>set (listdir w).
                map_of (files (save_source_code ev sp st w)) g = map_of (files w) g))
       \<and> (\<not> open_fails ev (now w) (save_path ev st w) \<longrightarrow>
             map_of (files (save_source_code ev sp st w)) (save_path ev st w)
               = Some (prettify ev sp)
           \<and> trace (save_source_code ev sp st w)
               = trace w @ [FileWrite (save_path ev st w) (prettify ev sp)])"
proof -
  let ?f = "unquoted_name ev st @ ''.html''"
  have d: "dir_exists w" and m: "?f \<in> set (listdir w)"
    using assms by (simp_all add: path_exists_def)
  have p: "save_path ev st w = ?f @ ''_'' @ clock ev (now w) @ ''.html''"
    using assms by (simp add: save_path_def Let_def)
  have ne: "save_path ev st w \<noteq> ?f" unfolding p by simp
  have fs: "files (save_source_code ev sp st w)
      = (if open_fails ev (now w) (save_path ev st w) then files w
         else AList.update (save_path ev st w) (prettify ev sp) (files w))"
    using d by (simp add: save_source_code_def Let_def write_file_def)
  have dx: "dir_exists (save_source_code ev sp st w)"
    using d by (simp add: save_source_code_def Let_def write_file_def)
  have other: "\<forall>g. g \<noteq> save_path ev st w \<longrightarrow>
             map_of (files (save_source_code ev sp st w)) g = map_of (files w) g"
    by (simp add: fs update_conv')
  have same: "map_of (files (save_source_code ev sp st w)) ?f = map_of (files w) ?f"
    using other ne by metis
  have fresh: "save_path ev st w \<notin> set (listdir w) \<longrightarrow>
             (\<forall>g\<in>set (listdir w).
                map_of (files (save_source_code ev sp st w)) g = map_of (files w) g)"
    using other by metis
  have "?f \<in> set (listdir (save_source_code ev sp st w))"
    using m by (auto simp add: listdir_def fs update_conv' simp flip: dom_map_of_conv_image_fst)
  then have still: "path_exists ?f (save_source_code ev sp st w)"
    using dx by (simp add: path_exists_def)
  have written: "\<not> open_fails ev (now w) (save_path ev st w) \<longrightarrow>
      map_of (files (save_source_code ev sp st w)) (save_path ev st w) = Some (prettify ev sp)
      \<and> trace (save_source_code ev sp st w)
               = trace w @ [FileWrite (save_path ev st w) (prettify ev sp)]"
    using d by (simp add: fs update_conv' save_source_code_def Let_def write_file_def)
  show ?thesis using p ne same still other fresh written by blast
qed

theorem save_source_code_keeps_existing_file_witness:
  "path_exists (unquoted_name quiet_env (target ''1'') @ ''.html'') one_page_store
   \<and> save_path quiet_env (target ''1'') one_page_store = ''1.html_20240101120000.html''
   \<and> ''1.html_20240101120000.html'' \<notin> set (listdir one_page_store)
   \<and> map_of (files (save_source_code quiet_env (BeautifulSoup ''<new>'') (target ''1'')
                       one_page_store)) ''1.html'' = Some ''<old>''
   \<and> save_source_code quiet_env (BeautifulSoup ''<new>'') (target ''1'') one_page_store
       = \<lparr>trace = [FileWrite ''1.html_20240101120000.html'' ''<new>''], dir_exists = True,
          files = [(''1.html'', ''<old>''), (''1.html_20240101120000.html'', ''<new>'')],
          rng_pos = 0\<rparr>"
  using save_source_code_keeps_existing_file[of quiet_env "target ''1''" one_page_store
      "BeautifulSoup ''<new>''"]
  by (simp add: one_page_store_def quiet_env_def target_def unquoted_name_def path_exists_def
      listdir_def save_source_code_def save_path_def write_file_def now_def Let_def emit_def)

text \<open>
  Claim C8 as stated fails where it says that nothing is ever overwritten silently: the
  suffixed name is opened for writing without a check. In a store that holds
  \<^verbatim>\<open>1.html\<close> and \<^verbatim>\<open>1.html_20240101120000.html\<close> (a page saved for the same target
  in the same second), saving target \<open>1\<close> in that second replaces the content of the
  second file, and the write is the only event.
\<close>

theorem save_source_code_overwrites_suffixed_file:
  "path_exists (unquoted_name quiet_env (target ''1'') @ ''.html'') two_page_store
   \<and> save_path quiet_env (target ''1'') two_page_store = ''1.html_20240101120000.html''
   \<and> map_of (files two_page_store) ''1.html_20240101120000.html'' = Some ''<older>''
   \<and> save_source_code quiet_env (BeautifulSoup ''<new>'') (target ''1'') two_page_store
       = \<lparr>trace = [FileWrite ''1.html_20240101120000.html'' ''<new>''], dir_exists = True,
          files = [(''1.html'', ''<old>''), (''1.html_20240101120000.html'', ''<new>'')],
          rng_pos = 0\<rparr>"
  by (simp add: two_page_store_def quiet_env_def target_def unquoted_name_def path_exists_def
      listdir_def save_source_code_def save_path_def write_file_def now_def Let_def emit_def)

text \<open>
  Claim C9. After a successful fetch, when opening the file for writing fails with an
  \<^verbatim>\<open>IOError\<close>, \<^verbatim>\<open>process_response\<close> still returns \<^verbatim>\<open>scrape\<close> with
  \<open>scraped = True\<close>; the failure is logged as an error, and no file is written. And
  whatever the file system does, the loop body yields that result and the loop goes on
  with the remaining targets.
\<close>

theorem write_failure_keeps_outcome:
  assumes "raise_for_status r = None" and "status_code r \<noteq> 429"
  shows "(open_fails ev (now (ensure_dir (time_sleep slp w)))
             (save_path ev st (ensure_dir (time_sleep slp w))) \<longrightarrow>
            fst (process_response ev r st slp w)
              = \<lparr>action = ''scrape'', site = st, sleep_time = slp, scraped = True\<rparr>
          \<and> trace (snd (process_response ev r st slp w))
              = trace (ensure_dir (time_sleep slp w))
                @ [Log ERROR (''Error saving source code for '' @ st)]
          \<and> files (snd (process_response ev r st slp w)) = (if dir_exists w then files w else []))
       \<and> (unquoted_name ev st \<notin> set skip \<and> (\<forall>t. network ev t (quote ev st) = Response r) \<longrightarrow>
            (\<exists>sess' w'.
               scrape_step ev skip msi st slp sess w
                 = (Some \<lparr>action = ''scrape'', site = st, sleep_time = slp, scraped = True\<rparr>,
                    Next, sess', w')
             \<and> fst (scrape_loop ev skip msi ((st, slp) # rest) sess w)
                 = \<lparr>action = ''scrape'', site = st, sleep_time = slp, scraped = True\<rparr>
                   # fst (scrape_loop ev skip msi rest sess' w')))"
proof (intro conjI impI)
  assume f: "open_fails ev (now (ensure_dir (time_sleep slp w)))
             (save_path ev st (ensure_dir (time_sleep slp w)))"
  show "fst (process_response ev r st slp w)
              = \<lparr>action = ''scrape'', site = st, sleep_time = slp, scraped = True\<rparr>"
    using assms by (simp add: process_response_success)
  show "trace (snd (process_response ev r st slp w))
              = trace (ensure_dir (time_sleep slp w))
                @ [Log ERROR (''Error saving source code for '' @ st)]"
    using assms f by (simp add: process_response_success save_source_code_def Let_def)
  show "files (snd (process_response ev r st slp w)) = (if dir_exists w then files w else [])"
    using assms f
    by (simp add: process_response_success save_source_code_def Let_def ensure_dir_def
        makedirs_def)
next
  assume a: "unquoted_name ev st \<notin> set skip \<and> (\<forall>t. network ev t (quote ev st) = Response r)"
  from scrape_step_response[of ev st skip r msi slp sess w] a assms
  obtain sess' w' where s: "scrape_step ev skip msi st slp sess w
                       = (Some (scrape_result st slp), Next, sess', w')"
    by blast
  then have "fst (scrape_loop ev skip msi ((st, slp) # rest) sess w)
                 = scrape_result st slp # fst (scrape_loop ev skip msi rest sess' w')"
    by (simp split: prod.splits)
  then show "\<exists>sess' w'.
               scrape_step ev skip msi st slp sess w
                 = (Some \<lparr>action = ''scrape'', site = st, sleep_time = slp, scraped = True\<rparr>,
                    Next, sess', w')
             \<and> fst (scrape_loop ev skip msi ((st, slp) # rest) sess w)
                 = \<lparr>action = ''scrape'', site = st, sleep_time = slp, scraped = True\<rparr>
                   # fst (scrape_loop ev skip msi rest sess' w')"
    using s by (auto simp: scrape_result_def)
qed

theorem write_failure_keeps_outcome_witness:
  "raise_for_status ok_response = None \<and> status_code ok_response \<noteq> 429
   \<and> open_fails read_only_env (now (ensure_dir (time_sleep 5 empty_store)))
        (save_path read_only_env (target ''1'') (ensure_dir (time_sleep 5 empty_store)))
   \<and> process_response read_only_env ok_response (target ''1'') 5 empty_store
       = (\<lparr>action = ''scrape'', site = target ''1'', sleep_time = 5, scraped = True\<rparr>,
          \<lparr>trace = [Sleep 5, Log ERROR (''Error saving source code for '' @ target ''1'')],
           dir_exists = True, files = [], rng_pos = 0\<rparr>)
   \<and> unquoted_name read_only_env (target ''1'') \<notin> set []
   \<and> (\<forall>t. network read_only_env t (quote read_only_env (target ''1'')) = Response ok_response)
   \<and> map action (fst (scrape_sites read_only_env [target ''1'', target ''2''] [5, 5] 30
                         empty_store)) = [''scrape'', ''scrape'']
   \<and> map scraped (fst (scrape_sites read_only_env [target ''1'', target ''2''] [5, 5] 30
                         empty_store)) = [True, True]
   \<and> fetched (trace (snd (snd (scrape_sites read_only_env [target ''1'', target ''2''] [5, 5] 30
                         empty_store)))) = [target ''1'', target ''2'']"
  using write_failure_keeps_outcome[where r = ok_response and ev = read_only_env
      and st = "target ''1''" and slp = 5 and w = empty_store and skip = "[]" and msi = 30
      and sess = None and rest = "[(target ''2'', 5)]"]
  by (simp add: ok_response_def read_only_env_def quiet_env_def empty_store_def target_def
      scrape_sites_def scrape_step_def issue_request_def finally_cleanup_def
      process_response_def save_source_code_def save_path_def ensure_dir_def
      path_exists_def listdir_def skip_sites_of_def unquoted_name_def session_get_def
      write_file_def now_def time_sleep_def logging_def emit_def Let_def)

section \<open>The resume filter\<close>

lemma str_split_nonempty: "str_split sep s \<noteq> []"
  by (induction s) (auto split: list.splits)

lemma hd_str_split: "hd (str_split sep s) = takeWhile (\<lambda>c. c \<noteq> sep) s"
proof (induction s)
  case Nil
  then show ?case by simp
next
  case (Cons c cs)
  then show ?case using str_split_nonempty[of sep cs]
    by (cases "str_split sep cs") auto
qed

lemma takeWhile_stem:
  "sep \<notin> set name \<Longrightarrow> takeWhile (\<lambda>c. c \<noteq> sep) (name @ sep # ext) = name"
  by (induction name) auto

lemma hd_str_split_stem:
  "sep \<notin> set name \<Longrightarrow> hd (str_split sep (name @ sep # ext)) = name"
  unfolding hd_str_split by (rule takeWhile_stem)

lemma skip_sites_dot_free: "x \<in> set (skip_sites_of w) \<Longrightarrow> CHR ''.'' \<notin> set x"
proof -
  assume "x \<in> set (skip_sites_of w)"
  then obtain f where "x = takeWhile (\<lambda>c. c \<noteq> CHR ''.'') f"
    by (auto simp: skip_sites_of_def hd_str_split)
  then show ?thesis by (auto dest: set_takeWhileD)
qed

lemma scrape_sites_single:
  assumes "dir_exists w"
  shows "\<exists>ys e w' evs. scrape_sites ev [st] [slp] msi w = (ys, e, w')
           \<and> trace w' = trace w @ evs
           \<and> fetched evs = (if unquoted_name ev st \<in> set (skip_sites_of w) then []
                             else [quote ev st])"
proof -
  let ?skip = "skip_sites_of w"
  obtain y c sess1 w1 where step: "scrape_step ev ?skip msi st slp None w = (y, c, sess1, w1)"
    by (cases "scrape_step ev ?skip msi st slp None w") auto
  from scrape_step_trace[OF step]
  obtain e1 where e1: "trace w1 = trace w @ e1"
      "fetched e1 = (if unquoted_name ev st \<in> set ?skip then [] else [quote ev st])"
    by blast
  have loop: "scrape_loop ev ?skip msi [(st, slp)] None w = (the_list y, c, sess1, w1)"
    using step by simp
  obtain ys e w' where r: "scrape_sites ev [st] [slp] msi w = (ys, e, w')"
    by (cases "scrape_sites ev [st] [slp] msi w") auto
  have "\<exists>e2. trace w' = trace w1 @ e2 \<and> fetched e2 = []"
  proof (cases c)
    case Next
    then have "w' = (if sess1 \<noteq> None then emit SessionClose w1 else w1)"
      using r loop assms by (simp add: scrape_sites_def Let_def)
    then show ?thesis by (cases "sess1 = None") auto
  next
    case Break
    then have "w' = (if sess1 \<noteq> None then emit SessionClose w1 else w1)"
      using r loop assms by (simp add: scrape_sites_def Let_def)
    then show ?thesis by (cases "sess1 = None") auto
  next
    case (Propagate x)
    then have "w' = (if x = KeyboardInterrupt
         then (if sess1 \<noteq> None
               then logging INFO ''Session closed after interruption.''
                      (emit SessionClose (logging INFO ''Scraping interrupted by user.'' w1))
               else logging INFO ''Scraping interrupted by user.'' w1)
         else w1)"
      using r loop assms by (simp add: scrape_sites_def Let_def split: if_splits)
    then show ?thesis by (cases "sess1 = None"; cases "x = KeyboardInterrupt") auto
  qed
  then obtain e2 where e2: "trace w' = trace w1 @ e2" "fetched e2 = []" by blast
  have "trace w' = trace w @ (e1 @ e2)" using e1(1) e2(1) by simp
  moreover have "fetched (e1 @ e2)
      = (if unquoted_name ev st \<in> set ?skip then [] else [quote ev st])"
    using e1(2) e2(2) by simp
  ultimately show ?thesis using r by blast
qed

lemma skip_sites_cut: "skip_sites_of w = map (takeWhile (\<lambda>c. c \<noteq> CHR ''.'')) (listdir w)"
  by (simp add: skip_sites_of_def hd_str_split)

lemma cut_is_strip_extension:
  assumes "length (filter (\<lambda>c. c = CHR ''.'') f) \<le> 1"
  shows "takeWhile (\<lambda>c. c \<noteq> CHR ''.'') f = spec_strip_extension f"
proof (cases "CHR ''.'' \<in> set f")
  case False
  then have "takeWhile (\<lambda>c. c \<noteq> CHR ''.'') f = f" by (auto simp: takeWhile_eq_all_conv)
  then show ?thesis using False by (simp add: spec_strip_extension_def)
next
  case True
  then obtain name ext where f: "f = name @ CHR ''.'' # ext" and n: "CHR ''.'' \<notin> set name"
    by (meson split_list_first)
  have "filter (\<lambda>c. c = CHR ''.'') ext = []" using assms unfolding f by simp
  then have e: "CHR ''.'' \<notin> set ext" by (auto simp: filter_empty_conv)
  have "dropWhile (\<lambda>c. c \<noteq> CHR ''.'') (rev ext @ CHR ''.'' # rev name)
          = dropWhile (\<lambda>c. c \<noteq> CHR ''.'') (CHR ''.'' # rev name)"
    using e by (intro dropWhile_append2) auto
  then have "dropWhile (\<lambda>c. c \<noteq> CHR ''.'') (rev f) = CHR ''.'' # rev name"
    unfolding f by simp
  then have "spec_strip_extension f = name" using True by (simp add: spec_strip_extension_def)
  moreover have "takeWhile (\<lambda>c. c \<noteq> CHR ''.'') f = name"
    unfolding f using n by (rule takeWhile_stem)
  ultimately show ?thesis by simp
qed

text \<open>
  Claim C7, as amended. The resume set is computed from the listing of the store at the
  start of \<^verbatim>\<open>scrape_sites\<close>: the names of the files, each cut at its first dot. For a
  name with at most one dot that is the name without its extension; a name with more
  dots is cut further. A target is skipped (no network call, no result) if and only if
  its decoded trailing path segment is in that set. The set is never updated during the
  run: the network calls of a whole run are, in order, those for the targets whose
  decoded segment is not in the set computed from the store as it was at the start (all
  of them when no request ends the loop early, a prefix of them otherwise), so a page
  written during the run does not make a later duplicate of its target skipped.
\<close>

theorem resume_filter_snapshot:
  assumes "dir_exists w"
  shows "skip_sites_of w = map (takeWhile (\<lambda>c. c \<noteq> CHR ''.'')) (listdir w)
     \<and> (\<forall>f. length (filter (\<lambda>c. c = CHR ''.'') f) \<le> 1 \<longrightarrow>
           takeWhile (\<lambda>c. c \<noteq> CHR ''.'') f = spec_strip_extension f)
     \<and> (\<exists>ys e w' evs. scrape_sites ev [st] [slp] msi w = (ys, e, w')
           \<and> trace w' = trace w @ evs
           \<and> (fetched evs = [] \<longleftrightarrow> unquoted_name ev st \<in> set (skip_sites_of w))
           \<and> (unquoted_name ev st \<in> set (skip_sites_of w) \<longrightarrow> ys = []))
     \<and> (\<exists>ys e w' evs. scrape_sites ev sites sleep_times msi w = (ys, e, w')
           \<and> trace w' = trace w @ evs
           \<and> prefix (fetched evs)
                (map (quote ev)
                   (filter (\<lambda>s. unquoted_name ev s \<notin> set (skip_sites_of w))
                      (map fst (zip sites sleep_times))))
           \<and> ((\<forall>s\<in>set sites. \<forall>t. goes_on (network ev t (quote ev s))) \<longrightarrow>
                 fetched evs
                   = map (quote ev)
                       (filter (\<lambda>s. unquoted_name ev s \<notin> set (skip_sites_of w))
                          (map fst (zip sites sleep_times)))
               \<and> map site ys
                   = filter (\<lambda>s. unquoted_name ev s \<notin> set (skip_sites_of w))
                       (map fst (zip sites sleep_times))))"
proof (intro conjI)
  show "skip_sites_of w = map (takeWhile (\<lambda>c. c \<noteq> CHR ''.'')) (listdir w)"
    by (rule skip_sites_cut)
  show "\<forall>f. length (filter (\<lambda>c. c = CHR ''.'') f) \<le> 1 \<longrightarrow>
           takeWhile (\<lambda>c. c \<noteq> CHR ''.'') f = spec_strip_extension f"
    by (simp add: cut_is_strip_extension)
  show "\<exists>ys e w' evs. scrape_sites ev [st] [slp] msi w = (ys, e, w')
           \<and> trace w' = trace w @ evs
           \<and> (fetched evs = [] \<longleftrightarrow> unquoted_name ev st \<in> set (skip_sites_of w))
           \<and> (unquoted_name ev st \<in> set (skip_sites_of w) \<longrightarrow> ys = [])"
  proof -
    from scrape_sites_single[OF assms, of ev st slp msi]
    obtain ys e w' evs where r: "scrape_sites ev [st] [slp] msi w = (ys, e, w')"
        "trace w' = trace w @ evs"
        "fetched evs = (if unquoted_name ev st \<in> set (skip_sites_of w) then []
                             else [quote ev st])"
      by blast
    have "unquoted_name ev st \<in> set (skip_sites_of w) \<longrightarrow> ys = []"
      using r(1) assms
      by (auto simp: scrape_sites_def Let_def scrape_step_skipped split: prod.splits)
    then show ?thesis using r by auto
  qed
  show "\<exists>ys e w' evs. scrape_sites ev sites sleep_times msi w = (ys, e, w')
           \<and> trace w' = trace w @ evs
           \<and> prefix (fetched evs)
                (map (quote ev)
                   (filter (\<lambda>s. unquoted_name ev s \<notin> set (skip_sites_of w))
                      (map fst (zip sites sleep_times))))
           \<and> ((\<forall>s\<in>set sites. \<forall>t. goes_on (network ev t (quote ev s))) \<longrightarrow>
                 fetched evs
                   = map (quote ev)
                       (filter (\<lambda>s. unquoted_name ev s \<notin> set (skip_sites_of w))
                          (map fst (zip sites sleep_times)))
               \<and> map site ys
                   = filter (\<lambda>s. unquoted_name ev s \<notin> set (skip_sites_of w))
                       (map fst (zip sites sleep_times)))"
  proof (cases "\<forall>s\<in>set sites. \<forall>t. goes_on (network ev t (quote ev s))")
    case True
    from scrape_sites_goes_on[OF assms True, of sleep_times msi]
    show ?thesis by (auto simp: to_fetch_def)
  next
    case False
    from scrape_sites_run[OF assms, of ev sites sleep_times msi]
    show ?thesis using False by (auto simp: to_fetch_def)
  qed
qed

theorem resume_filter_snapshot_witness:
  "dir_exists empty_store
   \<and> (\<forall>t. goes_on (network quiet_env t (quote quiet_env (target ''1''))))
   \<and> unquoted_name quiet_env (target ''1'') \<notin> set (skip_sites_of empty_store)
   \<and> scrape_sites quiet_env [target ''1'', target ''1''] [1, 1] 30 empty_store
      = ([\<lparr>action = ''scrape'', site = target ''1'', sleep_time = 1, scraped = True\<rparr>,
          \<lparr>action = ''scrape'', site = target ''1'', sleep_time = 1, scraped = True\<rparr>],
         Returned,
         \<lparr>trace = [SessionNew, SessionGet (target ''1''), Sleep 1, FileWrite ''1.html'' ''<p>'',
                   Log DEBUG (''Processed response from '' @ target ''1''),
                   SessionGet (target ''1''), Sleep 1,
                   FileWrite ''1.html_20240101120000.html'' ''<p>'',
                   Log DEBUG (''Processed response from '' @ target ''1''), SessionClose],
          dir_exists = True,
          files = [(''1.html'', ''<p>''), (''1.html_20240101120000.html'', ''<p>'')],
          rng_pos = 0\<rparr>)
   \<and> dir_exists one_page_store
   \<and> skip_sites_of one_page_store = [''1'']
   \<and> length (filter (\<lambda>c. c = CHR ''.'') ''1.html'') \<le> 1
   \<and> spec_strip_extension ''1.html'' = ''1''
   \<and> unquoted_name quiet_env (target ''1'') \<in> set (skip_sites_of one_page_store)
   \<and> scrape_sites quiet_env [target ''1''] [1] 30 one_page_store
      = ([], Returned,
         \<lparr>trace = [Log INFO (''Skipping '' @ target ''1'' @ '' as it has already been scraped.'')],
          dir_exists = True, files = [(''1.html'', ''<old>'')], rng_pos = 0\<rparr>)"
  using resume_filter_snapshot[of empty_store quiet_env "target ''1''" 1 30
      "[target ''1'', target ''1'']" "[1, 1]"]
    resume_filter_snapshot[of one_page_store quiet_env "target ''1''" 1 30
      "[target ''1'']" "[1]"]
  by (simp add: run_defs quiet_env_def ok_response_def empty_store_def one_page_store_def
      target_def spec_strip_extension_def)

text \<open>
  Claim C7 as stated fails where it says that the resume set is the listing with the
  file extensions stripped: a name is cut at its first dot, not at its last. With
  \<^verbatim>\<open>a.b.html\<close> in the store, stripping the extension gives \<^verbatim>\<open>a.b\<close>, the resume set
  is \<^verbatim>\<open>a\<close>, and target \<^verbatim>\<open>a\<close>, of which the store holds no page, is skipped.
\<close>

theorem resume_set_cuts_at_first_dot:
  "listdir dotted_store = [''a.b.html'']
   \<and> map spec_strip_extension (listdir dotted_store) = [''a.b'']
   \<and> skip_sites_of dotted_store = [''a'']
   \<and> unquoted_name quiet_env (target ''a'') = ''a''
   \<and> \<not> path_exists (''a'' @ ''.html'') dotted_store
   \<and> scrape_sites quiet_env [target ''a''] [1] 30 dotted_store
       = ([], Returned,
          \<lparr>trace = [Log INFO (''Skipping '' @ target ''a'' @ '' as it has already been scraped.'')],
           dir_exists = True, files = [(''a.b.html'', ''<old>'')], rng_pos = 0\<rparr>)"
  by (simp add: run_defs quiet_env_def dotted_store_def target_def spec_strip_extension_def)

text \<open>
  Claim C10. The resume identifier of a stored file is the part of its name before the
  first dot, whatever follows it; so no identifier contains a dot, and a target whose
  decoded trailing path segment contains a dot is never in the resume set: it is
  requested again on every run, also when its page is in the store.
\<close>

theorem resume_identifier_before_first_dot:
  "hd (str_split CHR ''.'' f) = takeWhile (\<lambda>c. c \<noteq> CHR ''.'') f
   \<and> (\<forall>x\<in>set (skip_sites_of w). CHR ''.'' \<notin> set x)
   \<and> (CHR ''.'' \<in> set (unquoted_name ev st) \<longrightarrow>
        unquoted_name ev st \<notin> set (skip_sites_of w))
   \<and> (CHR ''.'' \<in> set (unquoted_name ev st) \<and> dir_exists w \<longrightarrow>
        (\<exists>ys e w' evs. scrape_sites ev [st] [slp] msi w = (ys, e, w')
           \<and> trace w' = trace w @ evs \<and> fetched evs = [quote ev st]))"
proof (intro conjI impI)
  show "hd (str_split CHR ''.'' f) = takeWhile (\<lambda>c. c \<noteq> CHR ''.'') f"
    by (rule hd_str_split)
  show "\<forall>x\<in>set (skip_sites_of w). CHR ''.'' \<notin> set x"
    using skip_sites_dot_free by blast
  show "unquoted_name ev st \<notin> set (skip_sites_of w)" if "CHR ''.'' \<in> set (unquoted_name ev st)"
    using that skip_sites_dot_free by blast
  show "\<exists>ys e w' evs. scrape_sites ev [st] [slp] msi w = (ys, e, w')
           \<and> trace w' = trace w @ evs \<and> fetched evs = [quote ev st]"
    if a: "CHR ''.'' \<in> set (unquoted_name ev st) \<and> dir_exists w"
  proof -
    have "unquoted_name ev st \<notin> set (skip_sites_of w)"
      using a skip_sites_dot_free by blast
    then show ?thesis using scrape_sites_single[of w ev st slp msi] a by simp
  qed
qed

theorem resume_identifier_before_first_dot_witness:
  "hd (str_split CHR ''.'' ''a.b.html'') = ''a''
   \<and> skip_sites_of dotted_store = [''a'']
   \<and> CHR ''.'' \<in> set (unquoted_name quiet_env (target ''a.b'')) \<and> dir_exists dotted_store
   \<and> path_exists (unquoted_name quiet_env (target ''a.b'') @ ''.html'') dotted_store
   \<and> (\<exists>ys e w' evs. scrape_sites quiet_env [target ''a.b''] [1] 30 dotted_store = (ys, e, w')
           \<and> trace w' = trace dotted_store @ evs \<and> fetched evs = [target ''a.b''])"
  using resume_identifier_before_first_dot[of "''a.b.html''" dotted_store quiet_env
      "target ''a.b''" 1 30]
  by (simp add: dotted_store_def skip_sites_of_def listdir_def unquoted_name_def target_def
      path_exists_def quiet_env_def)

section \<open>The life of the session\<close>

text \<open>
  Claim C6, as amended. For a target that is not skipped, a session is opened only when
  the delay is below the threshold and no session is open, just before the request is
  sent through it; when the delay is at or above the threshold, an open session is
  closed and the variable set to \<open>None\<close> before the request is sent on its own. Nothing
  else in the loop body opens or closes a session: after the request the variable holds
  a session exactly when the delay was below the threshold, whatever the outcome of the
  request, so the \<^verbatim>\<open>finally\<close> clause (which closes only when the delay is at or above
  the threshold) leaves a session that served a failed request open. A skipped target
  leaves the session as it is. Over a whole run of \<^verbatim>\<open>scrape_sites\<close> the number of live
  sessions is zero or one after every event, and it is zero when the generator returns
  (the targets ran out, or \<^verbatim>\<open>break\<close>) or re-raises \<^verbatim>\<open>KeyboardInterrupt\<close>.
\<close>

theorem session_lifecycle:
  "(unquoted_name ev st \<notin> set skip \<longrightarrow>
      (\<exists>y c w' evs.
          scrape_step ev skip msi st slp sess w
            = (y, c, if slp < msi then Some Session else None, w')
        \<and> trace w'
            = trace w
              @ (if slp < msi
                 then (if sess = None then [SessionNew] else []) @ [SessionGet (quote ev st)]
                 else (if sess \<noteq> None then [SessionClose] else [])
                      @ [RequestsGet (quote ev st)])
              @ evs
        \<and> SessionNew \<notin> set evs \<and> SessionClose \<notin> set evs))
   \<and> (unquoted_name ev st \<in> set skip \<longrightarrow>
      (\<exists>w' evs. scrape_step ev skip msi st slp sess w = (None, Next, sess, w')
        \<and> trace w' = trace w @ evs \<and> SessionNew \<notin> set evs \<and> SessionClose \<notin> set evs))
   \<and> (dir_exists w \<longrightarrow>
      (\<exists>ys e w' evs. scrape_sites ev sites sleep_times msi w = (ys, e, w')
        \<and> trace w' = trace w @ evs
        \<and> (\<forall>p. prefix p evs \<longrightarrow> 0 \<le> live p \<and> live p \<le> 1)
        \<and> (e = Returned \<or> e = Raised KeyboardInterrupt \<longrightarrow> live evs = 0)))"
proof (intro conjI impI)
  assume ns: "unquoted_name ev st \<notin> set skip"
  from scrape_step_not_skipped[OF ns, of msi slp sess w]
  obtain evs w' where e:
      "scrape_step ev skip msi st slp sess w
         = (fst (step_outcome (network ev (length (trace w) + length (conn_events slp msi sess))
                                 (quote ev st)) st slp),
            snd (step_outcome (network ev (length (trace w) + length (conn_events slp msi sess))
                                 (quote ev st)) st slp),
            if slp < msi then Some Session else None, w')"
      "trace w' = trace w @ conn_events slp msi sess @ [get_event slp msi (quote ev st)] @ evs"
      "quiet evs"
    by blast
  have "trace w'
            = trace w
              @ (if slp < msi
                 then (if sess = None then [SessionNew] else []) @ [SessionGet (quote ev st)]
                 else (if sess \<noteq> None then [SessionClose] else [])
                      @ [RequestsGet (quote ev st)])
              @ evs"
    using e(2) by (simp add: conn_events_def get_event_def)
  then show "\<exists>y c w' evs.
          scrape_step ev skip msi st slp sess w
            = (y, c, if slp < msi then Some Session else None, w')
        \<and> trace w'
            = trace w
              @ (if slp < msi
                 then (if sess = None then [SessionNew] else []) @ [SessionGet (quote ev st)]
                 else (if sess \<noteq> None then [SessionClose] else [])
                      @ [RequestsGet (quote ev st)])
              @ evs
        \<and> SessionNew \<notin> set evs \<and> SessionClose \<notin> set evs"
    using e(1) quiet_no_session[OF e(3)] by blast
next
  assume "unquoted_name ev st \<in> set skip"
  then have "scrape_step ev skip msi st slp sess w
           = (None, Next, sess,
              logging INFO (''Skipping '' @ st @ '' as it has already been scraped.'') w)"
    by (rule scrape_step_skipped)
  then show "\<exists>w' evs. scrape_step ev skip msi st slp sess w = (None, Next, sess, w')
        \<and> trace w' = trace w @ evs \<and> SessionNew \<notin> set evs \<and> SessionClose \<notin> set evs"
    by (intro exI[of _ "logging INFO (''Skipping '' @ st @ '' as it has already been scraped.'') w"]
        exI[of _ "[Log INFO (''Skipping '' @ st @ '' as it has already been scraped.'')]"]) simp
next
  assume d: "dir_exists w"
  from scrape_sites_run[OF d, of ev sites sleep_times msi]
  obtain ys e w' evs where r: "scrape_sites ev sites sleep_times msi w = (ys, e, w')"
      "trace w' = trace w @ evs" "within_one 0 evs"
      "e = Returned \<or> e = Raised KeyboardInterrupt \<longrightarrow> live evs = 0"
    by blast
  have "\<forall>p. prefix p evs \<longrightarrow> 0 \<le> live p \<and> live p \<le> 1"
    using r(3) within_one_prefix[of 0 evs] by simp
  then show "\<exists>ys e w' evs. scrape_sites ev sites sleep_times msi w = (ys, e, w')
        \<and> trace w' = trace w @ evs
        \<and> (\<forall>p. prefix p evs \<longrightarrow> 0 \<le> live p \<and> live p \<le> 1)
        \<and> (e = Returned \<or> e = Raised KeyboardInterrupt \<longrightarrow> live evs = 0)"
    using r(1,2,4) by blast
qed

theorem session_lifecycle_witness:
  "unquoted_name quiet_env (target ''1'') \<notin> set []
   \<and> scrape_step quiet_env [] 30 (target ''1'') 1 None empty_store
     = (Some \<lparr>action = ''scrape'', site = target ''1'', sleep_time = 1, scraped = True\<rparr>,
        Next, Some Session,
        \<lparr>trace = [SessionNew, SessionGet (target ''1''), Sleep 1, FileWrite ''1.html'' ''<p>'',
                  Log DEBUG (''Processed response from '' @ target ''1'')],
         dir_exists = True, files = [(''1.html'', ''<p>'')], rng_pos = 0\<rparr>)
   \<and> unquoted_name quiet_env (target ''1'') \<in> set [''1'']
   \<and> fst (snd (snd (scrape_step quiet_env [''1''] 30 (target ''1'') 1 (Some Session)
                       empty_store))) = Some Session
   \<and> dir_exists empty_store
   \<and> trace (snd (snd (scrape_sites quiet_env [target ''1'', target ''2'', target ''3'']
                         [1, 40, 1] 30 empty_store)))
     = [SessionNew, SessionGet (target ''1''), Sleep 1, FileWrite ''1.html'' ''<p>'',
        Log DEBUG (''Processed response from '' @ target ''1''),
        SessionClose, RequestsGet (target ''2''), Sleep 40, FileWrite ''2.html'' ''<p>'',
        Log DEBUG (''Processed response from '' @ target ''2''),
        SessionNew, SessionGet (target ''3''), Sleep 1, FileWrite ''3.html'' ''<p>'',
        Log DEBUG (''Processed response from '' @ target ''3''), SessionClose]
   \<and> (\<exists>ys e w' evs.
          scrape_sites quiet_env [target ''1'', target ''2'', target ''3''] [1, 40, 1] 30
            empty_store = (ys, e, w')
        \<and> trace w' = trace empty_store @ evs
        \<and> (\<forall>p. prefix p evs \<longrightarrow> 0 \<le> live p \<and> live p \<le> 1)
        \<and> (e = Returned \<or> e = Raised KeyboardInterrupt \<longrightarrow> live evs = 0))"
proof -
  have a: "unquoted_name quiet_env (target ''1'') \<notin> set []" by simp
  have b: "scrape_step quiet_env [] 30 (target ''1'') 1 None empty_store
     = (Some \<lparr>action = ''scrape'', site = target ''1'', sleep_time = 1, scraped = True\<rparr>,
        Next, Some Session,
        \<lparr>trace = [SessionNew, SessionGet (target ''1''), Sleep 1, FileWrite ''1.html'' ''<p>'',
                  Log DEBUG (''Processed response from '' @ target ''1'')],
         dir_exists = True, files = [(''1.html'', ''<p>'')], rng_pos = 0\<rparr>)"
    by (simp add: run_defs quiet_env_def ok_response_def empty_store_def target_def)
  have c: "unquoted_name quiet_env (target ''1'') \<in> set [''1'']"
    by (simp add: unquoted_name_def target_def)
  from session_lifecycle[where ev = quiet_env and st = "target ''1''" and skip = "[''1'']"
      and msi = 30 and slp = 1 and sess = "Some Session" and w = empty_store
      and sites = "[]" and sleep_times = "[]"] c
  have d: "fst (snd (snd (scrape_step quiet_env [''1''] 30 (target ''1'') 1 (Some Session)
                       empty_store))) = Some Session"
    by auto
  have e: "trace (snd (snd (scrape_sites quiet_env [target ''1'', target ''2'', target ''3'']
                         [1, 40, 1] 30 empty_store)))
     = [SessionNew, SessionGet (target ''1''), Sleep 1, FileWrite ''1.html'' ''<p>'',
        Log DEBUG (''Processed response from '' @ target ''1''),
        SessionClose, RequestsGet (target ''2''), Sleep 40, FileWrite ''2.html'' ''<p>'',
        Log DEBUG (''Processed response from '' @ target ''2''),
        SessionNew, SessionGet (target ''3''), Sleep 1, FileWrite ''3.html'' ''<p>'',
        Log DEBUG (''Processed response from '' @ target ''3''), SessionClose]"
    by (simp add: run_defs quiet_env_def ok_response_def empty_store_def target_def)
  from session_lifecycle[where ev = quiet_env and st = "target ''1''" and skip = "[]"
      and msi = 30 and slp = 1 and sess = None and w = empty_store
      and sites = "[target ''1'', target ''2'', target ''3'']" and sleep_times = "[1, 40, 1]"]
  have f: "\<exists>ys e w' evs.
          scrape_sites quiet_env [target ''1'', target ''2'', target ''3''] [1, 40, 1] 30
            empty_store = (ys, e, w')
        \<and> trace w' = trace empty_store @ evs
        \<and> (\<forall>p. prefix p evs \<longrightarrow> 0 \<le> live p \<and> live p \<le> 1)
        \<and> (e = Returned \<or> e = Raised KeyboardInterrupt \<longrightarrow> live evs = 0)"
    by simp
  show ?thesis using a b c d e f empty_store_simps(1) by blast
qed

text \<open>
  Claim C6 as stated fails where it says the session is closed and nulled on the
  cleanup of a failed request: a request with a short delay that times out leaves the
  session variable set and the session open, and the next request goes through the same
  session.
\<close>

theorem session_survives_failed_request:
  "scrape_step (env_where (target ''1'') (Raises (RequestException Timeout))) [] 30
     (target ''1'') 1 None empty_store
     = (Some \<lparr>action = ''error'', site = target ''1'', sleep_time = 1, scraped = False\<rparr>,
        Next, Some Session,
        \<lparr>trace = [SessionNew, SessionGet (target ''1''),
                  Log ERROR (''Timeout occurred while trying to access '' @ target ''1'')],
         dir_exists = True, files = [], rng_pos = 0\<rparr>)
   \<and> trace (snd (snd (scrape_sites (env_where (target ''1'') (Raises (RequestException Timeout)))
                         [target ''1'', target ''2''] [1, 1] 30 empty_store)))
     = [SessionNew, SessionGet (target ''1''),
        Log ERROR (''Timeout occurred while trying to access '' @ target ''1''),
        SessionGet (target ''2''), Sleep 1, FileWrite ''2.html'' ''<p>'',
        Log DEBUG (''Processed response from '' @ target ''2''), SessionClose]"
  by (simp add: run_defs env_where_def quiet_env_def ok_response_def empty_store_def target_def)

end
